theory Spec2Isabelle
  imports Complex_Main "HOL-Library.List_Lexorder" "HOL-Library.Code_Target_Nat"
begin

section \<open>Strings and paths\<close>

text \<open>
  A Python \<open>str\<close> is modelled as the list of its code points, each a natural number.
  Two such lists compare as Python compares the strings: lexicographically, code point by
  code point. \<open>lit\<close> turns an ASCII literal into the string of its characters.

  A \<open>pathlib.Path\<close> is modelled by its parts below the directory it is relative to
  (\<open>blog/post.html\<close> is \<open>[lit ''blog'', lit ''post.html'']\<close>). Paths compare as Python
  compares them: lexicographically on the list of parts.
\<close>

type_synonym str = "nat list"

type_synonym path = "str list"

definition lit :: "string \<Rightarrow> str" where
  "lit s = map of_char s"

text \<open>
  \<open>str.isspace\<close> of one character, which is also what the pattern \<open>\s\<close> matches in a
  \<open>str\<close>: the white space of Unicode and the four ASCII separators \<open>0x1C\<close> to \<open>0x1F\<close>.
\<close>

definition isspace :: "nat \<Rightarrow> bool" where
  "isspace c = (c \<in> set [0x09, 0x0A, 0x0B, 0x0C, 0x0D, 0x1C, 0x1D, 0x1E, 0x1F, 0x20,
                          0x85, 0xA0, 0x1680, 0x2000, 0x2001, 0x2002, 0x2003, 0x2004,
                          0x2005, 0x2006, 0x2007, 0x2008, 0x2009, 0x200A, 0x2028, 0x2029,
                          0x202F, 0x205F, 0x3000])"

text \<open>\<open>str.strip()\<close>: leading and trailing white space removed.\<close>

definition strip :: "str \<Rightarrow> str" where
  "strip s = rev (dropWhile isspace (rev (dropWhile isspace s)))"

text \<open>\<open>sep.join(parts)\<close>.\<close>

fun join :: "'a list \<Rightarrow> 'a list list \<Rightarrow> 'a list" where
  "join sep [] = []"
| "join sep [x] = x"
| "join sep (x # y # ys) = x @ sep @ join sep (y # ys)"

text \<open>\<open>s.rfind(c)\<close> for a single character: the index of its last occurrence.\<close>

fun rfind :: "'a \<Rightarrow> 'a list \<Rightarrow> nat option" where
  "rfind c [] = None"
| "rfind c (x # xs) =
     (case rfind c xs of
        Some i \<Rightarrow> Some (Suc i)
      | None \<Rightarrow> if x = c then Some 0 else None)"

text \<open>
  \<open>PurePath.suffix\<close> of a file name, as Python 3.10 to 3.13 compute it: the text from
  the last dot on, when that dot is neither the first nor the last character of the name;
  empty otherwise.
\<close>

definition suffix_of :: "str \<Rightarrow> str" where
  "suffix_of name =
     (case rfind (of_char CHR ''.'') name of
        None \<Rightarrow> []
      | Some i \<Rightarrow> if 0 < i \<and> Suc i < length name then drop i name else [])"

datatype error =
    MissingPagesDirectory   \<comment> \<open>\<open>FileNotFoundError("Missing pages directory: ...")\<close>\<close>
  | NoPagesFound            \<comment> \<open>\<open>RuntimeError("No pages found to render.")\<close>\<close>
  | EmptyName               \<comment> \<open>\<open>ValueError\<close> of \<open>with_suffix\<close> on a path with no name\<close>
  | ReadFailure string      \<comment> \<open>what \<open>read_text\<close> raises: \<open>OSError\<close>, \<open>UnicodeDecodeError\<close>\<close>
  | RenderFailure string    \<comment> \<open>what the template engine raises\<close>

text \<open>\<open>relative_path.with_suffix("")\<close>: raises on a path with an empty name.\<close>

definition with_suffix_empty :: "path \<Rightarrow> error + path" where
  "with_suffix_empty p =
     (if p = [] then Inl EmptyName
      else let name = last p; old_suffix = suffix_of name
           in Inr (butlast p @ [take (length name - length old_suffix) name]))"

definition as_posix :: "path \<Rightarrow> str" where
  "as_posix p = join (lit ''/'') p"

text \<open>
  \<open>str(n)\<close> of an integer: its decimal digits, after a minus sign when negative. The
  digits are ASCII and are kept as a HOL \<open>string\<close>.
\<close>

fun digits :: "nat \<Rightarrow> string" where
  "digits n =
     (if n < 10 then [char_of (48 + n)]
      else digits (n div 10) @ [char_of (48 + n mod 10)])"

declare digits.simps [simp del]

definition str_int :: "int \<Rightarrow> string" where
  "str_int i = (if i < 0 then CHR ''-'' # digits (nat (- i)) else digits (nat i))"

section \<open>Site builder\<close>

definition page_slug :: "path \<Rightarrow> error + str" where
  "page_slug relative_path =
     (case with_suffix_empty relative_path of
        Inl e \<Rightarrow> Inl e
      | Inr q \<Rightarrow> Inr (join (lit ''-'') q))"

text \<open>
  \<open>str.title()\<close> reads the case properties and case mappings of the Unicode character
  database, which is outside the repository. The tables below stand for the database
  beyond ASCII: whether a character is cased, whether it is case-ignorable, and its full
  title-case and lower-case mappings. For the ASCII characters the properties are written
  out: the letters are cased, \<open>' . : ^ `\<close> are case-ignorable.
\<close>

record unicode_tables =
  is_cased :: "nat \<Rightarrow> bool"
  is_case_ignorable :: "nat \<Rightarrow> bool"
  to_title_full :: "nat \<Rightarrow> str"
  to_lower_full :: "nat \<Rightarrow> str"

definition is_lower :: "nat \<Rightarrow> bool" where
  "is_lower c = (of_char CHR ''a'' \<le> c \<and> c \<le> of_char CHR ''z'')"

definition is_upper :: "nat \<Rightarrow> bool" where
  "is_upper c = (of_char CHR ''A'' \<le> c \<and> c \<le> of_char CHR ''Z'')"

definition IsCased :: "unicode_tables \<Rightarrow> nat \<Rightarrow> bool" where
  "IsCased ucd c = (if c < 128 then is_lower c \<or> is_upper c else is_cased ucd c)"

definition IsCaseIgnorable :: "unicode_tables \<Rightarrow> nat \<Rightarrow> bool" where
  "IsCaseIgnorable ucd c =
     (if c < 128 then c \<in> set [0x27, 0x2E, 0x3A, 0x5E, 0x60] else is_case_ignorable ucd c)"

definition ToTitleFull :: "unicode_tables \<Rightarrow> nat \<Rightarrow> str" where
  "ToTitleFull ucd c =
     (if c < 128 then [if is_lower c then c - 32 else c] else to_title_full ucd c)"

definition ToLowerFull :: "unicode_tables \<Rightarrow> nat \<Rightarrow> str" where
  "ToLowerFull ucd c =
     (if c < 128 then [if is_upper c then c + 32 else c] else to_lower_full ucd c)"

text \<open>
  The lower case of a capital sigma depends on its place: it is the final form \<open>0x3C2\<close>
  when a cased character comes before it, case-ignorable characters skipped, and none
  comes after it, case-ignorable characters skipped. \<open>before\<close> holds the characters in
  front of the sigma, the nearest first.
\<close>

definition handle_capital_sigma :: "unicode_tables \<Rightarrow> str \<Rightarrow> str \<Rightarrow> nat" where
  "handle_capital_sigma ucd before after =
     (let b = dropWhile (IsCaseIgnorable ucd) before;
          a = dropWhile (IsCaseIgnorable ucd) after;
          final_sigma = (b \<noteq> [] \<and> IsCased ucd (hd b)) \<and> (a = [] \<or> \<not> IsCased ucd (hd a))
      in if final_sigma then 0x3C2 else 0x3C3)"

definition lower_ucs4 :: "unicode_tables \<Rightarrow> str \<Rightarrow> nat \<Rightarrow> str \<Rightarrow> str" where
  "lower_ucs4 ucd before c after =
     (if c = 0x3A3 then [handle_capital_sigma ucd before after] else ToLowerFull ucd c)"

text \<open>
  \<open>str.title()\<close>: a character that follows a cased character is lowered, any other is
  title-cased.
\<close>

fun do_title :: "unicode_tables \<Rightarrow> bool \<Rightarrow> str \<Rightarrow> str \<Rightarrow> str" where
  "do_title ucd previous_is_cased before [] = []"
| "do_title ucd previous_is_cased before (c # after) =
     (if previous_is_cased then lower_ucs4 ucd before c after else ToTitleFull ucd c)
     @ do_title ucd (IsCased ucd c) (c # before) after"

definition title :: "unicode_tables \<Rightarrow> str \<Rightarrow> str" where
  "title ucd s = do_title ucd False [] s"

text \<open>\<open>slug.replace("-", " ")\<close>.\<close>

definition replace_hyphens :: "str \<Rightarrow> str" where
  "replace_hyphens s = map (\<lambda>c. if c = of_char CHR ''-'' then of_char CHR '' '' else c) s"

definition page_label :: "unicode_tables \<Rightarrow> str \<Rightarrow> str" where
  "page_label ucd slug = title ucd (replace_hyphens slug)"

subsection \<open>The title block of a page\<close>

text \<open>
  \<open>extract_title_label\<close> searches the page source for
  \<open>{%\s*block\s+title\s*%}(.*?){%\s*endblock\s*%}\<close> with \<open>re.DOTALL\<close>. The search is
  written out: \<open>match_open\<close> matches the opening tag at the start of a text and returns
  what follows it, \<open>match_close\<close> matches the closing tag at the start of a text,
  \<open>lazy_body\<close> is the lazy group (the shortest text followed by a closing tag), and
  \<open>re_search\<close> tries each start position from the left. Every literal that follows a
  \<open>\s*\<close> or \<open>\s+\<close> starts with a character that is not white space, so the greedy
  white-space runs never give a character back and \<open>dropWhile isspace\<close> is their match.
\<close>

definition strip_prefix :: "'a list \<Rightarrow> 'a list \<Rightarrow> 'a list option" where
  "strip_prefix literal s =
     (if take (length literal) s = literal then Some (drop (length literal) s) else None)"

definition match_open :: "str \<Rightarrow> str option" where
  "match_open s =
     (case strip_prefix (lit ''{%'') s of
        None \<Rightarrow> None
      | Some s1 \<Rightarrow>
          (case strip_prefix (lit ''block'') (dropWhile isspace s1) of
             None \<Rightarrow> None
           | Some s2 \<Rightarrow>
               if takeWhile isspace s2 = [] then None
               else (case strip_prefix (lit ''title'') (dropWhile isspace s2) of
                       None \<Rightarrow> None
                     | Some s3 \<Rightarrow> strip_prefix (lit ''%}'') (dropWhile isspace s3))))"

definition match_close :: "str \<Rightarrow> str option" where
  "match_close s =
     (case strip_prefix (lit ''{%'') s of
        None \<Rightarrow> None
      | Some s1 \<Rightarrow>
          (case strip_prefix (lit ''endblock'') (dropWhile isspace s1) of
             None \<Rightarrow> None
           | Some s2 \<Rightarrow> strip_prefix (lit ''%}'') (dropWhile isspace s2)))"

fun lazy_body :: "str \<Rightarrow> str option" where
  "lazy_body [] = (if match_close [] = None then None else Some [])"
| "lazy_body (c # cs) =
     (if match_close (c # cs) \<noteq> None then Some []
      else map_option (Cons c) (lazy_body cs))"

fun re_search :: "str \<Rightarrow> str option" where
  "re_search [] = Option.bind (match_open []) lazy_body"
| "re_search (c # cs) =
     (case Option.bind (match_open (c # cs)) lazy_body of
        Some group1 \<Rightarrow> Some group1
      | None \<Rightarrow> re_search cs)"

text \<open>\<open>title_content.split("-", 1)[0]\<close>: the text before the first hyphen.\<close>

definition before_dash :: "str \<Rightarrow> str" where
  "before_dash s = takeWhile (\<lambda>c. c \<noteq> of_char CHR ''-'') s"

text \<open>The part of \<open>extract_title_label\<close> that follows the read.\<close>

definition title_label :: "str \<Rightarrow> str option" where
  "title_label content =
     (case re_search content of
        None \<Rightarrow> None
      | Some group1 \<Rightarrow>
          let title_content = strip group1
          in if title_content = [] then None
             else Some (strip (before_dash title_content)))"

subsection \<open>The file system of a build\<close>

text \<open>
  The pages directory is the list of the entries below it, each with what
  \<open>read_text(encoding="utf-8")\<close> gives on it: \<open>Inr\<close> the decoded text, or \<open>Inl\<close> the name of
  the exception raised (the entry is a directory, cannot be read, or is not UTF-8). The static and the build
  directory are modelled by their files: a map from the path below the directory to the
  content; a directory with no file below it leaves no trace. \<open>None\<close> is a directory
  that does not exist. Operations of the file system other than \<open>read_text\<close> are taken to
  succeed. The paths of the three directories are fixed and distinct, so a write below
  one of them changes neither of the others.
\<close>

record filesystem =
  pages_dir :: "(path \<times> (string + str)) list option"
  static_dir :: "(path \<rightharpoonup> str) option"
  build_dir :: "(path \<rightharpoonup> str) option"

definition clean_build_directory :: "filesystem \<Rightarrow> filesystem" where
  "clean_build_directory fs =
     (let fs1 = (if build_dir fs \<noteq> None then fs\<lparr>build_dir := None\<rparr> else fs)
      in if build_dir fs1 = None then fs1\<lparr>build_dir := Some Map.empty\<rparr> else fs1)"

text \<open>
  \<open>shutil.copytree(STATIC_DIR, BUILD_DIR / "static", dirs_exist_ok=True)\<close>: every file of
  the static directory is written below \<open>static\<close>, over a file that is already there.
\<close>

definition copytree :: "(path \<rightharpoonup> str) \<Rightarrow> str \<Rightarrow> (path \<rightharpoonup> str) \<Rightarrow> (path \<rightharpoonup> str)" where
  "copytree source target_name target =
     (\<lambda>p. case p of
            [] \<Rightarrow> target p
          | d # q \<Rightarrow> if d = target_name
                     then (case source q of Some c \<Rightarrow> Some c | None \<Rightarrow> target p)
                     else target p)"

definition copy_static_files :: "filesystem \<Rightarrow> filesystem" where
  "copy_static_files fs =
     (case static_dir fs of
        None \<Rightarrow> fs
      | Some files \<Rightarrow>
          fs\<lparr>build_dir :=
               Some (copytree files (lit ''static'')
                      (case build_dir fs of None \<Rightarrow> Map.empty | Some b \<Rightarrow> b))\<rparr>)"

text \<open>A file name matches the pattern \<open>*.html\<close> when it ends with \<open>.html\<close>.\<close>

definition is_html :: "str \<Rightarrow> bool" where
  "is_html name = (drop (length name - 5) name = lit ''.html'')"

definition name_of :: "path \<Rightarrow> str" where
  "name_of p = (if p = [] then [] else last p)"

definition rglob_html :: "(path \<times> (string + str)) list \<Rightarrow> path list" where
  "rglob_html entries = filter (\<lambda>p. p \<noteq> [] \<and> is_html (name_of p)) (map fst entries)"

definition discover_pages :: "filesystem \<Rightarrow> error + path list" where
  "discover_pages fs =
     (case pages_dir fs of
        None \<Rightarrow> Inl MissingPagesDirectory
      | Some entries \<Rightarrow> Inr (sort (rglob_html entries)))"

definition read_text :: "filesystem \<Rightarrow> path \<Rightarrow> error + str" where
  "read_text fs p =
     (case pages_dir fs of
        None \<Rightarrow> Inl (ReadFailure ''FileNotFoundError'')
      | Some entries \<Rightarrow>
          (case map_of entries p of
             None \<Rightarrow> Inl (ReadFailure ''FileNotFoundError'')
           | Some (Inl exception) \<Rightarrow> Inl (ReadFailure exception)
           | Some (Inr text) \<Rightarrow> Inr text))"

definition extract_title_label :: "filesystem \<Rightarrow> path \<Rightarrow> error + str option" where
  "extract_title_label fs page_path =
     (case read_text fs page_path of
        Inl e \<Rightarrow> Inl e
      | Inr content \<Rightarrow> Inr (title_label content))"

subsection \<open>Navigation and rendering\<close>

text \<open>\<open>NAV_ICONS.get(slug, "")\<close>; the icons are written as their code points.\<close>

definition NAV_ICONS_get :: "str \<Rightarrow> str" where
  "NAV_ICONS_get slug =
     (if slug = lit ''about'' then [0x1F464]
      else if slug = lit ''projects'' then [0x1F6E0, 0xFE0F]
      else if slug = lit ''fun'' then [0x1F3AE]
      else [])"

record nav_link =
  nav_id :: str
  nav_label :: str
  nav_href :: str

text \<open>
  \<open>extract_title_label(page) or page_label(slug)\<close>: Python's \<open>or\<close> takes the right
  operand when the left one is \<open>None\<close> or the empty string.
\<close>

definition label_or_default :: "unicode_tables \<Rightarrow> str option \<Rightarrow> str \<Rightarrow> str" where
  "label_or_default ucd extracted slug =
     (case extracted of
        None \<Rightarrow> page_label ucd slug
      | Some l \<Rightarrow> if l = [] then page_label ucd slug else l)"

definition with_icon :: "str \<Rightarrow> str \<Rightarrow> str" where
  "with_icon slug label =
     (let icon = NAV_ICONS_get slug
      in if icon \<noteq> [] then icon @ lit '' '' @ label else label)"

text \<open>
  The body of the first loop of \<open>render_pages\<close> for one page: \<open>None\<close> when the loop
  continues without a link, the link appended otherwise.
\<close>

definition nav_entry :: "unicode_tables \<Rightarrow> filesystem \<Rightarrow> path \<Rightarrow> error + nav_link option" where
  "nav_entry ucd fs rel_path =
     (case page_slug rel_path of
        Inl e \<Rightarrow> Inl e
      | Inr slug \<Rightarrow>
          if name_of rel_path = lit ''index.html'' then Inr None
          else (case extract_title_label fs rel_path of
                  Inl e \<Rightarrow> Inl e
                | Inr extracted \<Rightarrow>
                    Inr (Some \<lparr>nav_id = slug,
                               nav_label = with_icon slug (label_or_default ucd extracted slug),
                               nav_href = as_posix rel_path\<rparr>)))"

text \<open>The first loop of \<open>render_pages\<close>, over the discovered pages.\<close>

fun nav_loop :: "unicode_tables \<Rightarrow> filesystem \<Rightarrow> path list \<Rightarrow> error + nav_link list" where
  "nav_loop ucd fs [] = Inr []"
| "nav_loop ucd fs (rel_path # rest) =
     (case nav_entry ucd fs rel_path of
        Inl e \<Rightarrow> Inl e
      | Inr entry \<Rightarrow>
          (case nav_loop ucd fs rest of
             Inl e \<Rightarrow> Inl e
           | Inr links \<Rightarrow> Inr (case entry of None \<Rightarrow> links | Some link \<Rightarrow> link # links)))"

record render_context =
  nav_links :: "nav_link list"
  site_name :: str
  brand_icon :: str
  home_href :: str
  static_css_path :: str
  current_year :: int
  active_nav :: str

text \<open>
  The shared context merged with the slug of the page. \<open>year\<close> is what
  \<open>datetime.now().year\<close> gives when the build runs.
\<close>

definition page_context :: "nav_link list \<Rightarrow> int \<Rightarrow> str \<Rightarrow> render_context" where
  "page_context links year slug =
     \<lparr>nav_links = links,
      site_name = lit ''Home'',
      brand_icon = [0x1F3E0],
      home_href = lit ''index.html'',
      static_css_path = lit ''static/styles.css'',
      current_year = year,
      active_nav = slug\<rparr>"

text \<open>
  The template engine is outside the repository. An environment is what
  \<open>env.get_template(name).render(**context)\<close> computes for the templates and pages it was
  loaded from: \<open>Inr\<close> the page, or \<open>Inl\<close> the name of the exception raised.
\<close>

type_synonym environment = "str \<Rightarrow> render_context \<Rightarrow> string + str"

definition write_text :: "filesystem \<Rightarrow> path \<Rightarrow> str \<Rightarrow> filesystem" where
  "write_text fs rel_path html =
     fs\<lparr>build_dir :=
          Some ((case build_dir fs of None \<Rightarrow> Map.empty | Some b \<Rightarrow> b)(rel_path \<mapsto> html))\<rparr>"

text \<open>The second loop of \<open>render_pages\<close>: an exception leaves the pages written so far.\<close>

fun write_loop ::
  "environment \<Rightarrow> nav_link list \<Rightarrow> int \<Rightarrow> path list \<Rightarrow> filesystem \<Rightarrow> error option \<times> filesystem"
where
  "write_loop env links year [] fs = (None, fs)"
| "write_loop env links year (rel_path # rest) fs =
     (case page_slug rel_path of
        Inl e \<Rightarrow> (Some e, fs)
      | Inr slug \<Rightarrow>
          (case env (as_posix rel_path) (page_context links year slug) of
             Inl exception \<Rightarrow> (Some (RenderFailure exception), fs)
           | Inr html \<Rightarrow> write_loop env links year rest (write_text fs rel_path html)))"

text \<open>
  \<open>render_pages\<close> and \<open>main\<close> return the exception that ended the build, if any, and the
  file system the build leaves behind. They run with the tables \<open>ucd\<close> of the interpreter,
  the environment \<open>env\<close> loaded from the templates and pages, and the year of the clock.
\<close>

definition render_pages ::
  "unicode_tables \<Rightarrow> environment \<Rightarrow> int \<Rightarrow> filesystem \<Rightarrow> error option \<times> filesystem"
where
  "render_pages ucd env year fs =
     (case discover_pages fs of
        Inl e \<Rightarrow> (Some e, fs)
      | Inr discovered \<Rightarrow>
          if discovered = [] then (Some NoPagesFound, fs)
          else (case nav_loop ucd fs discovered of
                  Inl e \<Rightarrow> (Some e, fs)
                | Inr links \<Rightarrow> write_loop env links year discovered fs))"

definition main ::
  "unicode_tables \<Rightarrow> environment \<Rightarrow> int \<Rightarrow> filesystem \<Rightarrow> error option \<times> filesystem"
where
  "main ucd env year fs =
     render_pages ucd env year (copy_static_files (clean_build_directory fs))"

subsection \<open>The tags of a title block\<close>

text \<open>
  The texts that the two halves of the pattern stand for: \<open>{%\s*block\s+title\s*%}\<close> and
  \<open>{%\s*endblock\s*%}\<close>. They are used to say what \<open>re_search\<close> finds.
\<close>

definition opening_tag :: "str \<Rightarrow> bool" where
  "opening_tag t =
     (\<exists>w1 w2 w3. t = lit ''{%'' @ w1 @ lit ''block'' @ w2 @ lit ''title'' @ w3 @ lit ''%}''
        \<and> list_all isspace w1 \<and> w2 \<noteq> [] \<and> list_all isspace w2 \<and> list_all isspace w3)"

definition closing_tag :: "str \<Rightarrow> bool" where
  "closing_tag t =
     (\<exists>w1 w2. t = lit ''{%'' @ w1 @ lit ''endblock'' @ w2 @ lit ''%}''
        \<and> list_all isspace w1 \<and> list_all isspace w2)"

subsection \<open>Reading the output of a build\<close>

text \<open>The content of a file of the build directory, if the file is there.\<close>

definition built_file :: "filesystem \<Rightarrow> path \<Rightarrow> str option" where
  "built_file fs p = (case build_dir fs of None \<Rightarrow> None | Some files \<Rightarrow> files p)"

text \<open>
  An environment in which every template is the single expression \<open>{{ current_year }}\<close>:
  rendering gives the decimal digits of the year of the context.
\<close>

definition year_footer :: environment where
  "year_footer name context = Inr (lit (str_int (current_year context)))"

text \<open>
  Tables that case nothing beyond ASCII. They stand in for the database in the examples,
  whose texts are ASCII only: there the tables are not consulted, and any tables give the
  same labels.
\<close>

definition ascii_tables :: unicode_tables where
  "ascii_tables =
     \<lparr>is_cased = (\<lambda>c. False), is_case_ignorable = (\<lambda>c. False),
      to_title_full = (\<lambda>c. [c]), to_lower_full = (\<lambda>c. [c])\<rparr>"

section \<open>Change watcher\<close>

text \<open>
  What the watcher sees of the working directory is a tree: a file with what
  \<open>os.path.getmtime\<close> gives on it (\<open>None\<close> when the file has vanished between the walk and
  the call, which raises \<open>FileNotFoundError\<close>), or a directory with its entries. The
  paths of the watcher are only joined and compared for equality, so a path is kept as
  the HOL \<open>string\<close> of its bytes. A modification time is a float; equality of two finite floats is equality of the numbers
  they stand for, so it is a \<open>real\<close> here.
\<close>

datatype node = File "real option" | Dir "(string \<times> node) list"

definition WATCH_DIRS :: "string list" where
  "WATCH_DIRS = [''pages'', ''static'']"

text \<open>\<open>os.path.join(a, b)\<close> on POSIX.\<close>

definition path_join :: "string \<Rightarrow> string \<Rightarrow> string" where
  "path_join a b =
     (if b \<noteq> [] \<and> hd b = CHR ''/'' then b
      else if a = [] \<or> last a = CHR ''/'' then a @ b
      else a @ ''/'' @ b)"

text \<open>
  \<open>os.walk(base)\<close> with the pruning of the loop body: the files of a directory first,
  then the directories below it that are not named \<open>build\<close> or \<open>__pycache__\<close>, in the
  order of the listing. Each file comes with its path and what \<open>getmtime\<close> gives.
\<close>

fun walk :: "string \<Rightarrow> (string \<times> node) list \<Rightarrow> (string \<times> real option) list" where
  "walk dirpath entries =
     concat (map (\<lambda>(name, n). case n of
                    File r \<Rightarrow> [(path_join dirpath name, r)]
                  | Dir _ \<Rightarrow> []) entries)
     @ concat (map (\<lambda>(d, n). case n of
                      Dir sub \<Rightarrow> if d \<in> set [''build'', ''__pycache__''] then []
                                 else walk (path_join dirpath d) sub
                    | File _ \<Rightarrow> []) entries)"

declare walk.simps [simp del]

text \<open>\<open>mtimes[path] = os.path.getmtime(path)\<close>, skipped when the file has vanished.\<close>

definition store :: "(string \<times> real option) list \<Rightarrow> (string \<rightharpoonup> real) \<Rightarrow> (string \<rightharpoonup> real)" where
  "store found mtimes =
     fold (\<lambda>(path, r) m. case r of Some t \<Rightarrow> m(path \<mapsto> t) | None \<Rightarrow> m) found mtimes"

text \<open>
  \<open>snapshot\<close> reads the working directory: \<open>cwd base\<close> is the node named \<open>base\<close> there, if
  any, and \<open>os.path.isdir\<close> holds of a directory only.
\<close>

definition snapshot :: "(string \<Rightarrow> node option) \<Rightarrow> (string \<rightharpoonup> real)" where
  "snapshot cwd =
     fold (\<lambda>base mtimes. case cwd base of
                            Some (Dir entries) \<Rightarrow> store (walk base entries) mtimes
                          | _ \<Rightarrow> mtimes)
          WATCH_DIRS Map.empty"

text \<open>
  What the watcher does to the outside: a line printed, or \<open>subprocess.run(build_cmd)\<close>.
\<close>

datatype effect = Print string | Run "string list"

text \<open>
  What one turn of the loop finds after its sleep: the working directory, whether
  \<open>shutil.which("uv")\<close> finds \<open>uv\<close>, \<open>sys.executable\<close>, and the exit code a build started
  in this turn ends with.
\<close>

record poll =
  watched :: "string \<Rightarrow> node option"
  uv_found :: bool
  executable :: string
  returncode :: int

definition run_build :: "poll \<Rightarrow> effect list \<times> int" where
  "run_build p =
     (let build_cmd = (if uv_found p then [''uv'', ''run'', ''build.py'']
                       else [executable p, ''build.py''])
      in ([Print (''[watch] Running: '' @ join '' '' build_cmd),
           Run build_cmd,
           if returncode p = 0 then Print ''[watch] Build completed.''
           else Print (''[watch] Build failed with code '' @ str_int (returncode p) @ ''.'')],
          returncode p))"

text \<open>
  The loop of \<open>main\<close> has no exit: only an interrupt from outside ends the watcher, and
  that is not part of the model. \<open>poll_loop prev polls\<close> runs one turn for each element
  of \<open>polls\<close> and gives the effects of each turn, in order, so that the loop is followed
  for as many turns as one wishes.
\<close>

fun poll_loop :: "(string \<rightharpoonup> real) \<Rightarrow> poll list \<Rightarrow> effect list list" where
  "poll_loop prev [] = []"
| "poll_loop prev (p # ps) =
     (let current = snapshot (watched p)
      in if current \<noteq> prev then fst (run_build p) # poll_loop current ps
         else [] # poll_loop prev ps)"

text \<open>
  \<open>main\<close> of the watcher, started in the working directory \<open>start\<close>: the effects before the
  loop, then those of each turn.
\<close>

definition watch_main :: "(string \<Rightarrow> node option) \<Rightarrow> poll list \<Rightarrow> effect list list" where
  "watch_main start polls =
     [Print (''[watch] Watching '' @ join '', '' WATCH_DIRS @ '' for changes. Ctrl+C to stop.'')]
     # (let prev = snapshot start in poll_loop prev polls)"

text \<open>The number of builds started in one turn.\<close>

definition builds :: "effect list \<Rightarrow> nat" where
  "builds effects = length (filter (\<lambda>e. case e of Run _ \<Rightarrow> True | Print _ \<Rightarrow> False) effects)"

subsection \<open>A watched file and its modification time\<close>

text \<open>
  What it is to change the modification time of a watched file is said on the tree. A
  name of a directory entry is not empty and holds no slash, and the names of one
  directory are distinct: \<open>wf_node\<close>.
\<close>

definition valid_name :: "string \<Rightarrow> bool" where
  "valid_name name = (name \<noteq> [] \<and> CHR ''/'' \<notin> set name)"

fun wf_node :: "node \<Rightarrow> bool" where
  "wf_node (File r) = True"
| "wf_node (Dir entries) =
     (distinct (map fst entries) \<and> (\<forall>(name, n) \<in> set entries. valid_name name \<and> wf_node n))"

text \<open>
  \<open>watched_mtime names n\<close> is the modification time of the file reached from \<open>n\<close> by the
  names, one directory after the other, when no directory on the way is named \<open>build\<close> or
  \<open>__pycache__\<close>; \<open>touch names t n\<close> gives that file the modification time \<open>t\<close>; and
  \<open>key_of base names\<close> is the path of the file as \<open>os.path.join\<close> builds it from the watched
  directory \<open>base\<close>.
\<close>

fun watched_mtime :: "string list \<Rightarrow> node \<Rightarrow> real option" where
  "watched_mtime [] (File r) = r"
| "watched_mtime (name # names) (Dir entries) =
     (case map_of entries name of
        None \<Rightarrow> None
      | Some sub \<Rightarrow>
          if (case sub of Dir _ \<Rightarrow> name \<in> set [''build'', ''__pycache__''] | File _ \<Rightarrow> False)
          then None else watched_mtime names sub)"
| "watched_mtime names n = None"

fun touch :: "string list \<Rightarrow> real \<Rightarrow> node \<Rightarrow> node" where
  "touch [] t (File r) = File (Some t)"
| "touch (name # names) t (Dir entries) =
     Dir (map (\<lambda>(n, sub). (n, if n = name then touch names t sub else sub)) entries)"
| "touch names t n = n"

definition key_of :: "string \<Rightarrow> string list \<Rightarrow> string" where
  "key_of base names = foldl path_join base names"

text \<open>A directory path to which \<open>os.path.join\<close> appends a slash and the name.\<close>

definition joinable :: "string \<Rightarrow> bool" where
  "joinable dirpath = (dirpath \<noteq> [] \<and> last dirpath \<noteq> CHR ''/'')"

section \<open>Properties of the slug\<close>






subsection \<open>Default labels of ASCII slugs\<close>

text \<open>
  On a slug of ASCII characters the default label is the same whatever the tables hold
  beyond ASCII.
\<close>

lemma do_title_ascii:
  "list_all (\<lambda>c. c < 128) s \<Longrightarrow>
   do_title ucd previous_is_cased before s = do_title ucd' previous_is_cased before' s"
proof (induction s arbitrary: previous_is_cased before before')
  case Nil
  show ?case by simp
next
  case (Cons c s)
  then have c: "c < 128" and s: "list_all (\<lambda>c. c < 128) s" by simp_all
  have "lower_ucs4 ucd before c s = lower_ucs4 ucd' before' c s"
    using c by (simp add: lower_ucs4_def ToLowerFull_def)
  moreover have "ToTitleFull ucd c = ToTitleFull ucd' c"
    using c by (simp add: ToTitleFull_def)
  moreover have "IsCased ucd c = IsCased ucd' c"
    using c by (simp add: IsCased_def)
  moreover have "do_title ucd (IsCased ucd' c) (c # before) s
      = do_title ucd' (IsCased ucd' c) (c # before') s"
    using Cons.IH [OF s] .
  ultimately show ?case by simp
qed

lemma page_label_ascii:
  "list_all (\<lambda>c. c < 128) slug \<Longrightarrow> page_label ucd slug = page_label ucd' slug"
proof -
  assume "list_all (\<lambda>c. c < 128) slug"
  then have "list_all (\<lambda>c. c < 128) (replace_hyphens slug)"
    by (induction slug) (simp_all add: replace_hyphens_def)
  then show ?thesis
    unfolding page_label_def title_def by (rule do_title_ascii)
qed

section \<open>Properties of the title block\<close>

lemma strip_prefix_Some: "strip_prefix literal s = Some r \<longleftrightarrow> s = literal @ r"
  by (auto simp: strip_prefix_def split: if_splits) (metis append_take_drop_id)

lemma dropWhile_spaces:
  "list_all isspace w \<Longrightarrow> \<not> isspace x \<Longrightarrow> dropWhile isspace (w @ x # r) = x # r"
  by (simp add: dropWhile_append3 list_all_iff)

lemma takeWhile_spaces:
  "list_all isspace w \<Longrightarrow> \<not> isspace x \<Longrightarrow> takeWhile isspace (w @ x # r) = w"
  by (induction w) auto

lemma spaces_split:
  "dropWhile isspace s = r \<Longrightarrow>
   s = takeWhile isspace s @ r \<and> list_all isspace (takeWhile isspace s)"
  by (metis takeWhile_dropWhile_id list_all_iff set_takeWhileD)

lemma dropWhile_spaces_hd:
  "list_all isspace w \<Longrightarrow> r \<noteq> [] \<Longrightarrow> \<not> isspace (hd r) \<Longrightarrow> dropWhile isspace (w @ r) = r"
  by (cases r) (simp_all add: dropWhile_spaces)

lemma takeWhile_spaces_hd:
  "list_all isspace w \<Longrightarrow> r \<noteq> [] \<Longrightarrow> \<not> isspace (hd r) \<Longrightarrow> takeWhile isspace (w @ r) = w"
  by (cases r) (simp_all add: takeWhile_spaces)

lemma match_open_complete:
  assumes "opening_tag t"
  shows "match_open (t @ r) = Some r"
proof -
  from assms obtain w1 w2 w3 where t: "t = lit ''{%'' @ w1 @ lit ''block'' @ w2 @ lit ''title'' @ w3 @ lit ''%}''"
    and w: "list_all isspace w1" "w2 \<noteq> []" "list_all isspace w2" "list_all isspace w3"
    by (auto simp: opening_tag_def)
  define r3 where "r3 = lit ''%}'' @ r"
  define r2 where "r2 = lit ''title'' @ w3 @ r3"
  define r1 where "r1 = lit ''block'' @ w2 @ r2"
  have 1: "strip_prefix (lit ''{%'') (t @ r) = Some (w1 @ r1)"
    by (simp add: strip_prefix_Some t r1_def r2_def r3_def)
  have 2: "dropWhile isspace (w1 @ r1) = r1"
    using w(1) by (intro dropWhile_spaces_hd) (simp_all add: r1_def isspace_def lit_def)
  have 3: "strip_prefix (lit ''block'') r1 = Some (w2 @ r2)"
    by (simp add: strip_prefix_Some r1_def)
  have 4: "takeWhile isspace (w2 @ r2) = w2"
    using w(3) by (intro takeWhile_spaces_hd) (simp_all add: r2_def isspace_def lit_def)
  have 5: "dropWhile isspace (w2 @ r2) = r2"
    using w(3) by (intro dropWhile_spaces_hd) (simp_all add: r2_def isspace_def lit_def)
  have 6: "strip_prefix (lit ''title'') r2 = Some (w3 @ r3)"
    by (simp add: strip_prefix_Some r2_def)
  have 7: "dropWhile isspace (w3 @ r3) = r3"
    using w(4) by (intro dropWhile_spaces_hd) (simp_all add: r3_def isspace_def lit_def)
  have 8: "strip_prefix (lit ''%}'') r3 = Some r"
    by (simp add: strip_prefix_Some r3_def)
  show ?thesis
    by (simp add: match_open_def 1 2 3 4 5 6 7 8 w(2))
qed

lemma match_open_sound:
  assumes "match_open s = Some r"
  shows "\<exists>t. opening_tag t \<and> s = t @ r"
proof -
  from assms obtain s1 s2 s3 where
    1: "s = lit ''{%'' @ s1" and 2: "dropWhile isspace s1 = lit ''block'' @ s2"
    and 3: "takeWhile isspace s2 \<noteq> []" and 4: "dropWhile isspace s2 = lit ''title'' @ s3"
    and 5: "dropWhile isspace s3 = lit ''%}'' @ r"
    by (auto simp: match_open_def strip_prefix_Some split: option.splits if_splits)
  from 2 have a: "s1 = takeWhile isspace s1 @ lit ''block'' @ s2" "list_all isspace (takeWhile isspace s1)"
    using spaces_split [of s1] by simp_all
  from 4 have b: "s2 = takeWhile isspace s2 @ lit ''title'' @ s3" "list_all isspace (takeWhile isspace s2)"
    using spaces_split [of s2] by simp_all
  from 5 have c: "s3 = takeWhile isspace s3 @ lit ''%}'' @ r" "list_all isspace (takeWhile isspace s3)"
    using spaces_split [of s3] by simp_all
  let ?t = "lit ''{%'' @ takeWhile isspace s1 @ lit ''block'' @ takeWhile isspace s2 @ lit ''title''
            @ takeWhile isspace s3 @ lit ''%}''"
  have "opening_tag ?t"
    unfolding opening_tag_def using a(2) b(2) c(2) 3 by blast
  moreover have "s = ?t @ r"
    using 1 a(1) b(1) c(1) by (metis append.assoc)
  ultimately show ?thesis by blast
qed

lemma match_close_complete:
  assumes "closing_tag t"
  shows "match_close (t @ r) = Some r"
proof -
  from assms obtain w1 w2 where t: "t = lit ''{%'' @ w1 @ lit ''endblock'' @ w2 @ lit ''%}''"
    and w: "list_all isspace w1" "list_all isspace w2"
    by (auto simp: closing_tag_def)
  define r2 where "r2 = lit ''%}'' @ r"
  define r1 where "r1 = lit ''endblock'' @ w2 @ r2"
  have 1: "strip_prefix (lit ''{%'') (t @ r) = Some (w1 @ r1)"
    by (simp add: strip_prefix_Some t r1_def r2_def)
  have 2: "dropWhile isspace (w1 @ r1) = r1"
    using w(1) by (intro dropWhile_spaces_hd) (simp_all add: r1_def isspace_def lit_def)
  have 3: "strip_prefix (lit ''endblock'') r1 = Some (w2 @ r2)"
    by (simp add: strip_prefix_Some r1_def)
  have 4: "dropWhile isspace (w2 @ r2) = r2"
    using w(2) by (intro dropWhile_spaces_hd) (simp_all add: r2_def isspace_def lit_def)
  have 5: "strip_prefix (lit ''%}'') r2 = Some r"
    by (simp add: strip_prefix_Some r2_def)
  show ?thesis
    by (simp add: match_close_def 1 2 3 4 5)
qed

lemma match_close_sound:
  assumes "match_close s = Some r"
  shows "\<exists>t. closing_tag t \<and> s = t @ r"
proof -
  from assms obtain s1 s2 where
    1: "s = lit ''{%'' @ s1" and 2: "dropWhile isspace s1 = lit ''endblock'' @ s2"
    and 3: "dropWhile isspace s2 = lit ''%}'' @ r"
    by (auto simp: match_close_def strip_prefix_Some split: option.splits if_splits)
  from 2 have a: "s1 = takeWhile isspace s1 @ lit ''endblock'' @ s2" "list_all isspace (takeWhile isspace s1)"
    using spaces_split [of s1] by simp_all
  from 3 have b: "s2 = takeWhile isspace s2 @ lit ''%}'' @ r" "list_all isspace (takeWhile isspace s2)"
    using spaces_split [of s2] by simp_all
  let ?t = "lit ''{%'' @ takeWhile isspace s1 @ lit ''endblock'' @ takeWhile isspace s2 @ lit ''%}''"
  have "closing_tag ?t"
    unfolding closing_tag_def using a(2) b(2) by blast
  moreover have "s = ?t @ r"
    using 1 a(1) b(1) by (metis append.assoc)
  ultimately show ?thesis by blast
qed

lemma lazy_body_sound:
  "lazy_body s = Some g \<Longrightarrow> \<exists>rest. s = g @ rest \<and> match_close rest \<noteq> None"
proof (induction s arbitrary: g)
  case Nil
  then show ?case by (auto split: if_splits)
next
  case (Cons c cs)
  then show ?case by (fastforce split: if_splits)
qed

lemma lazy_body_complete:
  "match_close rest \<noteq> None \<Longrightarrow> lazy_body (g @ rest) \<noteq> None"
proof (induction g)
  case Nil
  then show ?case by (cases rest) auto
next
  case (Cons c g)
  then show ?case by auto
qed

lemma re_search_sound:
  "re_search s = Some g \<Longrightarrow>
   \<exists>pre x rest. s = pre @ x \<and> match_open x = Some (g @ rest) \<and> match_close rest \<noteq> None"
proof (induction s)
  case Nil
  then obtain r where "match_open [] = Some r" "lazy_body r = Some g"
    by (auto simp: bind_eq_Some_conv)
  with lazy_body_sound show ?case by fastforce
next
  case (Cons c cs)
  show ?case
  proof (cases "Option.bind (match_open (c # cs)) lazy_body")
    case None
    with Cons.prems have "re_search cs = Some g" by simp
    with Cons.IH obtain pre x rest where
      "cs = pre @ x" "match_open x = Some (g @ rest)" "match_close rest \<noteq> None" by blast
    then have "c # cs = (c # pre) @ x" by simp
    with \<open>match_open x = Some (g @ rest)\<close> \<open>match_close rest \<noteq> None\<close> show ?thesis by blast
  next
    case (Some g')
    with Cons.prems have "g' = g" by simp
    with Some obtain r where "match_open (c # cs) = Some r" "lazy_body r = Some g"
      by (auto simp: bind_eq_Some_conv)
    with lazy_body_sound obtain rest where "r = g @ rest" "match_close rest \<noteq> None" by blast
    with \<open>match_open (c # cs) = Some r\<close> have "c # cs = [] @ (c # cs)"
      "match_open (c # cs) = Some (g @ rest)" by simp_all
    with \<open>match_close rest \<noteq> None\<close> show ?thesis by blast
  qed
qed

lemma re_search_complete:
  "match_open x = Some (g @ rest) \<Longrightarrow> match_close rest \<noteq> None \<Longrightarrow> re_search (pre @ x) \<noteq> None"
proof (induction pre)
  case Nil
  then have "Option.bind (match_open x) lazy_body \<noteq> None"
    using lazy_body_complete [of rest g] by simp
  then show ?case by (cases x) (auto split: option.splits)
next
  case (Cons c pre)
  then show ?case by (auto split: option.splits)
qed

text \<open>
  A title block is located exactly when the text holds an opening tag with a closing tag
  somewhere after it.
\<close>

lemma re_search_locates:
  "re_search content \<noteq> None \<longleftrightarrow>
   (\<exists>pre t body t' post. content = pre @ t @ body @ t' @ post \<and> opening_tag t \<and> closing_tag t')"
proof
  assume "re_search content \<noteq> None"
  then obtain g where "re_search content = Some g" by auto
  from re_search_sound [OF this] obtain pre x rest where
    x: "content = pre @ x" "match_open x = Some (g @ rest)" and "match_close rest \<noteq> None" by blast
  then obtain post where "match_close rest = Some post" by auto
  from match_close_sound [OF this] obtain t' where t': "closing_tag t'" "rest = t' @ post" by blast
  from match_open_sound [OF x(2)] obtain t where t: "opening_tag t" "x = t @ g @ rest" by blast
  from x(1) t t' show "\<exists>pre t body t' post. content = pre @ t @ body @ t' @ post \<and> opening_tag t \<and> closing_tag t'"
    by blast
next
  assume "\<exists>pre t body t' post. content = pre @ t @ body @ t' @ post \<and> opening_tag t \<and> closing_tag t'"
  then obtain pre t body t' post where c: "content = pre @ t @ body @ t' @ post"
    and t: "opening_tag t" "closing_tag t'" by blast
  have "match_open (t @ body @ t' @ post) = Some (body @ t' @ post)"
    using match_open_complete [OF t(1)] by simp
  moreover have "match_close (t' @ post) \<noteq> None"
    using match_close_complete [OF t(2)] by simp
  ultimately show "re_search content \<noteq> None"
    unfolding c using re_search_complete by blast
qed

lemma strip_eq_Nil: "strip s = [] \<longleftrightarrow> list_all isspace s"
proof -
  have "strip s = [] \<longleftrightarrow> dropWhile isspace (rev (dropWhile isspace s)) = []"
    by (simp add: strip_def)
  also have "\<dots> \<longleftrightarrow> (\<forall>x\<in>set (dropWhile isspace s). isspace x)"
    by (simp add: dropWhile_eq_Nil_conv)
  also have "\<dots> \<longleftrightarrow> dropWhile isspace s = []"
    by (metis dropWhile_eq_Nil_conv hd_dropWhile list.set_sel(1) empty_iff list.set(1))
  also have "\<dots> \<longleftrightarrow> list_all isspace s"
    by (simp add: dropWhile_eq_Nil_conv list_all_iff)
  finally show ?thesis .
qed





lemma lazy_body_first:
  "match_close rest \<noteq> None \<Longrightarrow>
   \<forall>b1 b2. body = b1 @ b2 \<and> b2 \<noteq> [] \<longrightarrow> match_close (b2 @ rest) = None \<Longrightarrow>
   lazy_body (body @ rest) = Some body"
proof (induction body)
  case Nil
  then show ?case by (cases rest) auto
next
  case (Cons c body)
  have here: "match_close ((c # body) @ rest) = None"
    using Cons.prems(2) by blast
  have "\<forall>b1 b2. body = b1 @ b2 \<and> b2 \<noteq> [] \<longrightarrow> match_close (b2 @ rest) = None"
  proof (intro allI impI)
    fix b1 b2 assume "body = b1 @ b2 \<and> b2 \<noteq> []"
    then have "c # body = (c # b1) @ b2 \<and> b2 \<noteq> []" by simp
    with Cons.prems(2) show "match_close (b2 @ rest) = None" by blast
  qed
  with Cons.IH Cons.prems(1) have "lazy_body (body @ rest) = Some body" by blast
  with here show ?case by simp
qed

lemma re_search_first:
  "Option.bind (match_open x) lazy_body = Some body \<Longrightarrow>
   \<forall>p1 p2. pre = p1 @ p2 \<and> p2 \<noteq> [] \<longrightarrow> match_open (p2 @ x) = None \<Longrightarrow>
   re_search (pre @ x) = Some body"
proof (induction pre)
  case Nil
  then show ?case by (cases x) auto
next
  case (Cons c pre)
  have here: "match_open ((c # pre) @ x) = None"
    using Cons.prems(2) by blast
  have "\<forall>p1 p2. pre = p1 @ p2 \<and> p2 \<noteq> [] \<longrightarrow> match_open (p2 @ x) = None"
  proof (intro allI impI)
    fix p1 p2 assume "pre = p1 @ p2 \<and> p2 \<noteq> []"
    then have "c # pre = (c # p1) @ p2 \<and> p2 \<noteq> []" by simp
    with Cons.prems(2) show "match_open (p2 @ x) = None" by blast
  qed
  with Cons.IH Cons.prems(1) have "re_search (pre @ x) = Some body" by blast
  with here show ?case by simp
qed

text \<open>
  What the search gives: when \<open>t\<close> is the leftmost opening tag of the text and \<open>t'\<close> the
  first closing tag after it, the group is the text between the two.
\<close>

lemma re_search_block:
  assumes content: "content = pre @ t @ body @ t' @ post"
    and tags: "opening_tag t" "closing_tag t'"
    and leftmost: "\<forall>p tag r. content = p @ tag @ r \<and> opening_tag tag \<longrightarrow> length pre \<le> length p"
    and first_close: "\<forall>b c r. body @ t' @ post = b @ c @ r \<and> closing_tag c \<longrightarrow> length body \<le> length b"
  shows "re_search content = Some body"
proof -
  let ?x = "t @ body @ t' @ post"
  have open_here: "match_open ?x = Some (body @ t' @ post)"
    using match_open_complete [OF tags(1)] by simp
  have close_here: "match_close (t' @ post) \<noteq> None"
    using match_close_complete [OF tags(2)] by simp
  have no_close: "\<forall>b1 b2. body = b1 @ b2 \<and> b2 \<noteq> [] \<longrightarrow> match_close (b2 @ t' @ post) = None"
  proof (intro allI impI)
    fix b1 b2 assume split: "body = b1 @ b2 \<and> b2 \<noteq> []"
    show "match_close (b2 @ t' @ post) = None"
    proof (rule ccontr)
      assume "match_close (b2 @ t' @ post) \<noteq> None"
      then obtain r where "match_close (b2 @ t' @ post) = Some r" by auto
      from match_close_sound [OF this] obtain c where
        c: "closing_tag c" "b2 @ t' @ post = c @ r" by blast
      with split have "body @ t' @ post = b1 @ c @ r" by simp
      with c(1) first_close have "length body \<le> length b1" by blast
      with split show False by simp
    qed
  qed
  have body: "lazy_body (body @ t' @ post) = Some body"
    using lazy_body_first [OF close_here no_close] .
  have no_open: "\<forall>p1 p2. pre = p1 @ p2 \<and> p2 \<noteq> [] \<longrightarrow> match_open (p2 @ ?x) = None"
  proof (intro allI impI)
    fix p1 p2 assume split: "pre = p1 @ p2 \<and> p2 \<noteq> []"
    show "match_open (p2 @ ?x) = None"
    proof (rule ccontr)
      assume "match_open (p2 @ ?x) \<noteq> None"
      then obtain r where "match_open (p2 @ ?x) = Some r" by auto
      from match_open_sound [OF this] obtain tag where
        tag: "opening_tag tag" "p2 @ ?x = tag @ r" by blast
      with split content have "content = p1 @ tag @ r" by simp
      with tag(1) leftmost have "length pre \<le> length p1" by blast
      with split show False by simp
    qed
  qed
  have "Option.bind (match_open ?x) lazy_body = Some body"
    using open_here body by simp
  from re_search_first [OF this no_open] content show ?thesis by simp
qed


lemma closing_tag_brace: "closing_tag t \<Longrightarrow> \<exists>r. t = of_char CHR ''{'' # r"
  by (auto simp: closing_tag_def lit_def)

lemma no_brace_before:
  assumes "of_char CHR ''{'' \<notin> set xs" and "xs @ ys = p @ (of_char CHR ''{'' # r) @ r'"
  shows "length xs \<le> length p"
proof (rule ccontr)
  assume "\<not> length xs \<le> length p"
  then have "length p < length xs" by simp
  then have "(xs @ ys) ! length p = xs ! length p" by (simp add: nth_append)
  moreover have "(p @ (of_char CHR ''{'' # r) @ r') ! length p = of_char CHR ''{''" by simp
  ultimately have "xs ! length p = of_char CHR ''{''" using assms(2) by simp
  with \<open>length p < length xs\<close> assms(1) show False by (metis nth_mem)
qed


lemma first_close_no_brace:
  "of_char CHR ''{'' \<notin> set body \<Longrightarrow>
   \<forall>b c r. body @ rest = b @ c @ r \<and> closing_tag c \<longrightarrow> length body \<le> length b"
  using no_brace_before closing_tag_brace by blast






lemma opening_tag_example: "opening_tag (lit ''{% block title %}'')"
  unfolding opening_tag_def
  by (rule exI [of _ "lit '' ''"], rule exI [of _ "lit '' ''"], rule exI [of _ "lit '' ''"])
     (simp add: lit_def isspace_def)

lemma closing_tag_example: "closing_tag (lit ''{% endblock %}'')"
  unfolding closing_tag_def
  by (rule exI [of _ "lit '' ''"], rule exI [of _ "lit '' ''"])
     (simp add: lit_def isspace_def)


text \<open>
  A page that cannot be read: \<open>read_text\<close> raises, \<open>extract_title_label\<close> has no handler,
  and the exception leaves the first loop of \<open>render_pages\<close>. No label is derived.
\<close>

theorem unreadable_page_counterexample:
  "extract_title_label \<lparr>pages_dir = Some [([lit ''notes.html''], Inl ''UnicodeDecodeError'')],
                         static_dir = None, build_dir = None\<rparr> [lit ''notes.html'']
     = Inl (ReadFailure ''UnicodeDecodeError'')
   \<and> nav_loop ascii_tables
        \<lparr>pages_dir = Some [([lit ''notes.html''], Inl ''UnicodeDecodeError'')],
         static_dir = None, build_dir = None\<rparr> [ [lit ''notes.html''] ]
     = Inl (ReadFailure ''UnicodeDecodeError'')"
  by code_simp

text \<open>
  Claim C3, as amended. For every page whose source is read, \<open>extract_title_label\<close>
  returns and does not raise. It returns no override when no title block is located (the
  source holds no opening tag with a closing tag after it), and when the block is blank
  (the text between the leftmost opening tag and the first closing tag after it is white
  space). When it returns no override, the label of the link is the default label of the
  slug, after the icon of the slug if it has one. A source that cannot be read is not
  covered: there the exception of the read leaves the function.
\<close>

theorem extract_title_label_of_read_page:
  assumes "read_text fs page_path = Inr content"
  shows "extract_title_label fs page_path = Inr (title_label content)
     \<and> (\<not> (\<exists>pre t body t' post. content = pre @ t @ body @ t' @ post
                \<and> opening_tag t \<and> closing_tag t')
          \<longrightarrow> extract_title_label fs page_path = Inr None)
     \<and> (content = pre @ t @ body @ t' @ post \<and> opening_tag t \<and> closing_tag t'
          \<and> (\<forall>p tag r. content = p @ tag @ r \<and> opening_tag tag \<longrightarrow> length pre \<le> length p)
          \<and> (\<forall>b c r. body @ t' @ post = b @ c @ r \<and> closing_tag c \<longrightarrow> length body \<le> length b)
          \<and> list_all isspace body
          \<longrightarrow> extract_title_label fs page_path = Inr None)
     \<and> (extract_title_label fs page_path = Inr None \<and> page_slug page_path = Inr slug
          \<and> name_of page_path \<noteq> lit ''index.html''
        \<longrightarrow> nav_entry ucd fs page_path =
              Inr (Some \<lparr>nav_id = slug, nav_label = with_icon slug (page_label ucd slug),
                          nav_href = as_posix page_path\<rparr>))"
proof -
  have returns: "extract_title_label fs page_path = Inr (title_label content)"
    using assms by (simp add: extract_title_label_def)
  have not_located: "\<not> (\<exists>pre t body t' post. content = pre @ t @ body @ t' @ post
                \<and> opening_tag t \<and> closing_tag t')
          \<longrightarrow> extract_title_label fs page_path = Inr None"
  proof
    assume "\<not> (\<exists>pre t body t' post. content = pre @ t @ body @ t' @ post
                \<and> opening_tag t \<and> closing_tag t')"
    then have "re_search content = None"
      using re_search_locates [of content] by blast
    then have "title_label content = None"
      by (simp add: title_label_def)
    with returns show "extract_title_label fs page_path = Inr None" by simp
  qed
  have blank: "content = pre @ t @ body @ t' @ post \<and> opening_tag t \<and> closing_tag t'
          \<and> (\<forall>p tag r. content = p @ tag @ r \<and> opening_tag tag \<longrightarrow> length pre \<le> length p)
          \<and> (\<forall>b c r. body @ t' @ post = b @ c @ r \<and> closing_tag c \<longrightarrow> length body \<le> length b)
          \<and> list_all isspace body
          \<longrightarrow> extract_title_label fs page_path = Inr None"
  proof
    assume a: "content = pre @ t @ body @ t' @ post \<and> opening_tag t \<and> closing_tag t'
          \<and> (\<forall>p tag r. content = p @ tag @ r \<and> opening_tag tag \<longrightarrow> length pre \<le> length p)
          \<and> (\<forall>b c r. body @ t' @ post = b @ c @ r \<and> closing_tag c \<longrightarrow> length body \<le> length b)
          \<and> list_all isspace body"
    then have "re_search content = Some body"
      using re_search_block [of content pre t body t' post] by blast
    moreover from a have "strip body = []"
      by (simp add: strip_eq_Nil)
    ultimately have "title_label content = None"
      by (simp add: title_label_def)
    with returns show "extract_title_label fs page_path = Inr None" by simp
  qed
  have fallback: "extract_title_label fs page_path = Inr None \<and> page_slug page_path = Inr slug
          \<and> name_of page_path \<noteq> lit ''index.html''
        \<longrightarrow> nav_entry ucd fs page_path =
              Inr (Some \<lparr>nav_id = slug, nav_label = with_icon slug (page_label ucd slug),
                          nav_href = as_posix page_path\<rparr>)"
    by (simp add: nav_entry_def label_or_default_def)
  from returns not_located blank fallback show ?thesis by blast
qed

theorem extract_title_label_of_read_page_witness:
  "extract_title_label
     \<lparr>pages_dir = Some [([lit ''blog'', lit ''post.html''],
          Inr (lit ''{% block title %}'' @ [0xA0, 0x2003] @ lit ''{% endblock %}''))],
      static_dir = None, build_dir = None\<rparr> [lit ''blog'', lit ''post.html''] = Inr None
   \<and> nav_entry ascii_tables
     \<lparr>pages_dir = Some [([lit ''blog'', lit ''post.html''],
          Inr (lit ''{% block title %}'' @ [0xA0, 0x2003] @ lit ''{% endblock %}''))],
      static_dir = None, build_dir = None\<rparr> [lit ''blog'', lit ''post.html'']
     = Inr (Some \<lparr>nav_id = lit ''blog-post'', nav_label = lit ''Blog Post'',
                 nav_href = lit ''blog/post.html''\<rparr>)"
proof -
  let ?t = "lit ''{% block title %}''"
  let ?body = "[0xA0, 0x2003] :: str"
  let ?t' = "lit ''{% endblock %}''"
  let ?content = "?t @ ?body @ ?t'"
  let ?fs = "\<lparr>pages_dir = Some [([lit ''blog'', lit ''post.html''], Inr ?content)],
              static_dir = None, build_dir = None\<rparr>"
  have 1: "read_text ?fs [lit ''blog'', lit ''post.html''] = Inr ?content"
    by code_simp
  have 2: "?content = [] @ ?t @ ?body @ ?t' @ []"
    by simp
  have 3: "\<forall>p tag r. ?content = p @ tag @ r \<and> opening_tag tag \<longrightarrow> length ([]::str) \<le> length p"
    by simp
  have 4: "\<forall>b c r. ?body @ ?t' @ [] = b @ c @ r \<and> closing_tag c \<longrightarrow> length ?body \<le> length b"
    by (rule first_close_no_brace) simp
  have 5: "list_all isspace ?body"
    by (simp add: isspace_def)
  have 6: "page_slug [lit ''blog'', lit ''post.html''] = Inr (lit ''blog-post'')"
    by code_simp
  have 7: "name_of [lit ''blog'', lit ''post.html''] \<noteq> lit ''index.html''"
    by code_simp
  have 8: "with_icon (lit ''blog-post'') (page_label ascii_tables (lit ''blog-post'')) = lit ''Blog Post''"
    by code_simp
  have 9: "as_posix [lit ''blog'', lit ''post.html''] = lit ''blog/post.html''"
    by code_simp
  from extract_title_label_of_read_page
    [OF 1, of "[]" ?t ?body ?t' "[]" "lit ''blog-post''" ascii_tables]
    2 opening_tag_example closing_tag_example 3 4 5 6 7
  show ?thesis unfolding 8 9 by blast
qed

section \<open>Properties of page discovery and navigation\<close>

lemma nav_loop_links:
  "nav_loop ucd fs d = Inr links \<Longrightarrow>
   list_all2 (\<lambda>link p. nav_href link = as_posix p \<and> page_slug p = Inr (nav_id link))
     links (filter (\<lambda>p. name_of p \<noteq> lit ''index.html'') d)"
proof (induction d arbitrary: links)
  case Nil
  then show ?case by simp
next
  case (Cons p d)
  from Cons.prems obtain entry rest where
    entry: "nav_entry ucd fs p = Inr entry" and rest: "nav_loop ucd fs d = Inr rest"
    and links: "links = (case entry of None \<Rightarrow> rest | Some link \<Rightarrow> link # rest)"
    by (auto split: sum.splits)
  have IH: "list_all2 (\<lambda>link p. nav_href link = as_posix p \<and> page_slug p = Inr (nav_id link))
     rest (filter (\<lambda>p. name_of p \<noteq> lit ''index.html'') d)"
    using Cons.IH rest by simp
  show ?case
  proof (cases "name_of p = lit ''index.html''")
    case True
    with entry have "entry = None"
      by (auto simp: nav_entry_def split: sum.splits)
    with True IH links show ?thesis by simp
  next
    case False
    with entry obtain slug label where "page_slug p = Inr slug"
      "entry = Some \<lparr>nav_id = slug, nav_label = label, nav_href = as_posix p\<rparr>"
      by (auto simp: nav_entry_def split: sum.splits)
    with False IH links show ?thesis by simp
  qed
qed

lemma discover_pages_sorted:
  "discover_pages fs = Inr d \<Longrightarrow> sorted d"
  by (auto simp: discover_pages_def split: option.splits)

lemma discover_pages_distinct:
  "pages_dir fs = Some entries \<Longrightarrow> distinct (map fst entries) \<Longrightarrow>
   discover_pages fs = Inr d \<Longrightarrow> distinct d"
  by (auto simp: discover_pages_def rglob_html_def)

lemma discover_pages_set:
  "pages_dir fs = Some entries \<Longrightarrow> discover_pages fs = Inr d \<Longrightarrow>
   set d = {p \<in> fst ` set entries. p \<noteq> [] \<and> is_html (name_of p)}"
  by (force simp: discover_pages_def rglob_html_def)

text \<open>
  Two pages, \<open>index.html\<close> and \<open>blog/index.html\<close>. The entry point, the page the home link
  leads to, is \<open>index.html\<close>; \<open>blog/index.html\<close> is another page, and the navigation
  list is empty.
\<close>

theorem nested_index_page_counterexample:
  "discover_pages \<lparr>pages_dir = Some [([lit ''index.html''], Inr (lit ''home'')),
                                      ([lit ''blog'', lit ''index.html''], Inr (lit ''posts''))],
                    static_dir = None, build_dir = None\<rparr>
     = Inr [ [lit ''blog'', lit ''index.html''], [lit ''index.html''] ]
   \<and> nav_loop ascii_tables \<lparr>pages_dir = Some [([lit ''index.html''], Inr (lit ''home'')),
                                   ([lit ''blog'', lit ''index.html''], Inr (lit ''posts''))],
                 static_dir = None, build_dir = None\<rparr>
        [ [lit ''blog'', lit ''index.html''], [lit ''index.html''] ] = Inr []
   \<and> as_posix [lit ''blog'', lit ''index.html''] \<noteq> home_href (page_context [] 2025 (lit ''blog-index''))"
  by code_simp

text \<open>
  Claim C1, as amended. For every pages directory, the discovered pages are the entries
  whose name ends with \<open>.html\<close>, each once, sorted by path. The navigation list leaves out
  exactly the pages whose file name is \<open>index.html\<close>, at any depth, and holds one link for
  every other discovered page, in the order of discovery.
\<close>

theorem nav_links_are_the_non_index_pages:
  assumes "pages_dir fs = Some entries" and "distinct (map fst entries)"
    and "discover_pages fs = Inr discovered" and "nav_loop ucd fs discovered = Inr links"
  shows "sorted discovered \<and> distinct discovered
     \<and> set discovered = {p \<in> fst ` set entries. p \<noteq> [] \<and> is_html (name_of p)}
     \<and> list_all2 (\<lambda>link p. nav_href link = as_posix p \<and> page_slug p = Inr (nav_id link))
          links (filter (\<lambda>p. name_of p \<noteq> lit ''index.html'') discovered)"
  using assms discover_pages_sorted discover_pages_distinct discover_pages_set nav_loop_links
  by blast

theorem nav_links_are_the_non_index_pages_witness:
  "list_all2 (\<lambda>link p. nav_href link = as_posix p \<and> page_slug p = Inr (nav_id link))
     [\<lparr>nav_id = lit ''about'',
        nav_label = [0x1F464] @ lit '' About'',
        nav_href = lit ''about.html''\<rparr>,
      \<lparr>nav_id = lit ''blog-post'', nav_label = lit ''First'', nav_href = lit ''blog/post.html''\<rparr>]
     (filter (\<lambda>p. name_of p \<noteq> lit ''index.html'')
        [ [lit ''about.html''], [lit ''blog'', lit ''post.html''], [lit ''index.html''] ])"
proof -
  let ?entries = "[([lit ''index.html''], Inr (lit ''home'')),
        ([lit ''blog'', lit ''post.html''], Inr (lit ''{% block title %}First - Home{% endblock %}'')),
        ([lit ''about.html''], Inr (lit ''no title'')),
        ([lit ''notes.txt''], Inr (lit ''''))] :: (path \<times> (string + str)) list"
  let ?fs = "\<lparr>pages_dir = Some ?entries, static_dir = None, build_dir = None\<rparr>"
  have 1: "pages_dir ?fs = Some ?entries" by simp
  have 2: "distinct (map fst ?entries)" by (simp add: lit_def)
  have 3: "discover_pages ?fs = Inr [ [lit ''about.html''], [lit ''blog'', lit ''post.html''], [lit ''index.html''] ]"
    by code_simp
  have 4: "nav_loop ucd ?fs [ [lit ''about.html''], [lit ''blog'', lit ''post.html''], [lit ''index.html''] ] =
     Inr [\<lparr>nav_id = lit ''about'',
        nav_label = [0x1F464] @ lit '' About'',
        nav_href = lit ''about.html''\<rparr>,
      \<lparr>nav_id = lit ''blog-post'', nav_label = lit ''First'', nav_href = lit ''blog/post.html''\<rparr>]"
    by code_simp
  from nav_links_are_the_non_index_pages [OF 1 2 3 4] show ?thesis by blast
qed

lemma write_loop_error:
  "fst (write_loop env links year d fs) \<noteq> Some MissingPagesDirectory \<and>
   fst (write_loop env links year d fs) \<noteq> Some NoPagesFound"
proof (induction d arbitrary: fs)
  case Nil
  then show ?case by simp
next
  case (Cons p d)
  then show ?case
    by (auto simp: page_slug_def with_suffix_empty_def Let_def split: sum.splits if_splits)
qed

lemma nav_entry_error:
  "nav_entry ucd fs p = Inl e \<Longrightarrow> e = EmptyName \<or> (\<exists>x. e = ReadFailure x)"
  by (auto simp: nav_entry_def page_slug_def with_suffix_empty_def Let_def extract_title_label_def
        read_text_def split: sum.splits if_splits option.splits)

lemma nav_loop_error:
  "nav_loop ucd fs d = Inl e \<Longrightarrow> e = EmptyName \<or> (\<exists>x. e = ReadFailure x)"
proof (induction d arbitrary: e)
  case Nil
  then show ?case by simp
next
  case (Cons p d)
  then show ?case
    using nav_entry_error [of ucd fs p] by (auto split: sum.splits)
qed

lemma pages_dir_prepared [simp]:
  "pages_dir (copy_static_files (clean_build_directory fs)) = pages_dir fs"
  by (simp add: copy_static_files_def clean_build_directory_def Let_def split: option.splits)

lemma discover_pages_prepared [simp]:
  "discover_pages (copy_static_files (clean_build_directory fs)) = discover_pages fs"
  by (simp add: discover_pages_def)

lemma sort_eq_Nil: "sort xs = [] \<longleftrightarrow> xs = []"
  by (metis length_sort length_0_conv)

text \<open>
  Claim C4. \<open>discover_pages\<close> raises exactly when the pages directory does not exist, and
  what it raises is the error of the missing directory. A build ends with the error of
  no pages exactly when the pages directory exists and holds no entry named \<open>*.html\<close>. In
  both cases the build leaves the cleaned build directory with the static files copied
  into it: no page is written.
\<close>

theorem missing_and_empty_input_errors:
  "(discover_pages fs = Inl MissingPagesDirectory \<longleftrightarrow> pages_dir fs = None)
   \<and> ((\<exists>e. discover_pages fs = Inl e) \<longleftrightarrow> pages_dir fs = None)
   \<and> (fst (main ucd env year fs) = Some MissingPagesDirectory \<longleftrightarrow> pages_dir fs = None)
   \<and> (fst (main ucd env year fs) = Some NoPagesFound \<longleftrightarrow>
        (\<exists>entries. pages_dir fs = Some entries \<and> rglob_html entries = []))
   \<and> (fst (main ucd env year fs) = Some MissingPagesDirectory \<or> fst (main ucd env year fs) = Some NoPagesFound
        \<longrightarrow> snd (main ucd env year fs) = copy_static_files (clean_build_directory fs))"
proof -
  let ?fs = "copy_static_files (clean_build_directory fs)"
  have a: "discover_pages fs = Inl MissingPagesDirectory \<longleftrightarrow> pages_dir fs = None"
    by (simp add: discover_pages_def split: option.splits)
  have b: "(\<exists>e. discover_pages fs = Inl e) \<longleftrightarrow> pages_dir fs = None"
    by (simp add: discover_pages_def split: option.splits)
  have c: "fst (main ucd env year fs) = Some MissingPagesDirectory \<longleftrightarrow> pages_dir fs = None"
    using write_loop_error [of env _ year _ ?fs] nav_loop_error [of ucd ?fs]
    by (auto simp: main_def render_pages_def discover_pages_def split: option.splits sum.splits)
  have d: "fst (main ucd env year fs) = Some NoPagesFound \<longleftrightarrow>
        (\<exists>entries. pages_dir fs = Some entries \<and> rglob_html entries = [])"
    using write_loop_error [of env _ year _ ?fs] nav_loop_error [of ucd ?fs]
    by (auto simp: main_def render_pages_def discover_pages_def sort_eq_Nil
          split: option.splits sum.splits)
  have e: "fst (main ucd env year fs) = Some MissingPagesDirectory \<or> fst (main ucd env year fs) = Some NoPagesFound
        \<longrightarrow> snd (main ucd env year fs) = ?fs"
    using write_loop_error [of env _ year _ ?fs] nav_loop_error [of ucd ?fs]
    by (auto simp: main_def render_pages_def split: option.splits sum.splits)
  from a b c d e show ?thesis by blast
qed

theorem missing_and_empty_input_errors_witness:
  "fst (main ascii_tables year_footer 2025 \<lparr>pages_dir = None, static_dir = None, build_dir = None\<rparr>)
     = Some MissingPagesDirectory
   \<and> fst (main ascii_tables year_footer 2025
        \<lparr>pages_dir = Some [([lit ''notes.txt''], Inr (lit ''text''))], static_dir = None, build_dir = None\<rparr>)
     = Some NoPagesFound
   \<and> snd (main ascii_tables year_footer 2025
        \<lparr>pages_dir = Some [([lit ''notes.txt''], Inr (lit ''text''))], static_dir = None, build_dir = None\<rparr>)
     = \<lparr>pages_dir = Some [([lit ''notes.txt''], Inr (lit ''text''))], static_dir = None,
        build_dir = Some Map.empty\<rparr>"
proof -
  let ?missing = "\<lparr>pages_dir = None, static_dir = None, build_dir = None\<rparr>
     :: filesystem"
  let ?entries = "[([lit ''notes.txt''], Inr (lit ''text''))] :: (path \<times> (string + str)) list"
  let ?no_pages = "\<lparr>pages_dir = Some ?entries, static_dir = None, build_dir = None\<rparr>"
  have 1: "pages_dir ?missing = None" by simp
  have 2: "pages_dir ?no_pages = Some ?entries \<and> rglob_html ?entries = []"
    by (simp add: rglob_html_def is_html_def name_of_def lit_def)
  have 3: "copy_static_files (clean_build_directory ?no_pages)
      = \<lparr>pages_dir = Some ?entries, static_dir = None, build_dir = Some Map.empty\<rparr>"
    by (simp add: copy_static_files_def clean_build_directory_def)
  from missing_and_empty_input_errors [where fs = ?missing and ucd = ascii_tables and env = year_footer and year = 2025] 1
  have a: "fst (main ascii_tables year_footer 2025 ?missing) = Some MissingPagesDirectory" by blast
  from missing_and_empty_input_errors [where fs = ?no_pages and ucd = ascii_tables and env = year_footer and year = 2025] 2
  have b: "fst (main ascii_tables year_footer 2025 ?no_pages) = Some NoPagesFound
      \<and> snd (main ascii_tables year_footer 2025 ?no_pages) = copy_static_files (clean_build_directory ?no_pages)"
    by blast
  from a b show ?thesis unfolding 3 by blast
qed

section \<open>Properties of a whole build\<close>

lemma clean_build_directory_eq:
  "clean_build_directory fs = fs\<lparr>build_dir := Some Map.empty\<rparr>"
  by (simp add: clean_build_directory_def Let_def)

lemma same_inputs_refl: "\<exists>out. (fs::filesystem) = fs\<lparr>build_dir := out\<rparr>"
  by (rule exI [of _ "build_dir fs"]) simp

lemma write_loop_keeps_inputs:
  "\<exists>out. snd (write_loop env links year d fs) = fs\<lparr>build_dir := out\<rparr>"
proof (induction d arbitrary: fs)
  case Nil
  show ?case using same_inputs_refl [of fs] by simp
next
  case (Cons p d)
  show ?case
  proof (cases "page_slug p")
    case (Inl e)
    then show ?thesis using same_inputs_refl [of fs] by simp
  next
    case (Inr slug)
    show ?thesis
    proof (cases "env (as_posix p) (page_context links year slug)")
      case (Inl x)
      with Inr show ?thesis using same_inputs_refl [of fs] by simp
    next
      case html: (Inr html)
      from Cons.IH [of "write_text fs p html"] obtain out where
        "snd (write_loop env links year d (write_text fs p html)) = (write_text fs p html)\<lparr>build_dir := out\<rparr>"
        by blast
      then have "snd (write_loop env links year (p # d) fs) = fs\<lparr>build_dir := out\<rparr>"
        using Inr html by (simp add: write_text_def)
      then show ?thesis by blast
    qed
  qed
qed

lemma render_pages_keeps_inputs:
  "\<exists>out. snd (render_pages ucd env year fs) = fs\<lparr>build_dir := out\<rparr>"
proof (cases "discover_pages fs")
  case (Inl e)
  then show ?thesis using same_inputs_refl [of fs] by (simp add: render_pages_def)
next
  case (Inr d)
  show ?thesis
  proof (cases "d = []")
    case True
    with Inr show ?thesis using same_inputs_refl [of fs] by (simp add: render_pages_def)
  next
    case False
    show ?thesis
    proof (cases "nav_loop ucd fs d")
      case (Inl e)
      with Inr False show ?thesis using same_inputs_refl [of fs] by (simp add: render_pages_def)
    next
      case links: (Inr links)
      with Inr False show ?thesis
        using write_loop_keeps_inputs [of env links year d fs] by (simp add: render_pages_def)
    qed
  qed
qed

lemma main_keeps_inputs:
  "\<exists>out. snd (main ucd env year fs) = fs\<lparr>build_dir := out\<rparr>"
proof -
  let ?fs = "copy_static_files (clean_build_directory fs)"
  obtain b where prepared: "?fs = fs\<lparr>build_dir := b\<rparr>"
    by (cases "static_dir fs") (auto simp: copy_static_files_def clean_build_directory_eq)
  obtain out where "snd (main ucd env year fs) = ?fs\<lparr>build_dir := out\<rparr>"
    using render_pages_keeps_inputs [of ucd env year ?fs] by (auto simp: main_def)
  with prepared have "snd (main ucd env year fs) = fs\<lparr>build_dir := out\<rparr>" by simp
  then show ?thesis by blast
qed

lemma main_ignores_prior_output:
  "main ucd env year (fs\<lparr>build_dir := prior\<rparr>) = main ucd env year fs"
  by (simp add: main_def clean_build_directory_eq)

text \<open>
  Two builds of the same pages, the first in 2025 and the second in 2026, with a template
  that shows \<open>current_year\<close>: the page written by the first holds \<open>2025\<close>, the page
  written by the second holds \<open>2026\<close>.
\<close>

theorem year_changes_output_counterexample:
  "built_file (snd (main ascii_tables year_footer 2025
       \<lparr>pages_dir = Some [([lit ''index.html''], Inr (lit ''{{ current_year }}''))],
        static_dir = None, build_dir = None\<rparr>)) [lit ''index.html''] = Some (lit ''2025'')
   \<and> built_file (snd (main ascii_tables year_footer 2026 (snd (main ascii_tables year_footer 2025
       \<lparr>pages_dir = Some [([lit ''index.html''], Inr (lit ''{{ current_year }}''))],
        static_dir = None, build_dir = None\<rparr>)))) [lit ''index.html''] = Some (lit ''2026'')"
  by code_simp

text \<open>
  Claim C5, as amended. A build run on what a build has left, with the same templates,
  pages and static files and in the same calendar year, ends as the first one did and
  leaves the same file system: the same build directory, file for file.
\<close>

theorem rebuild_in_same_year_is_idempotent:
  "main ucd env year (snd (main ucd env year fs)) = main ucd env year fs"
proof -
  obtain out where "snd (main ucd env year fs) = fs\<lparr>build_dir := out\<rparr>"
    using main_keeps_inputs by blast
  then show ?thesis by (simp add: main_ignores_prior_output)
qed

theorem rebuild_in_same_year_is_idempotent_witness:
  "built_file (snd (main ascii_tables year_footer 2025 (snd (main ascii_tables year_footer 2025
       \<lparr>pages_dir = Some [([lit ''index.html''], Inr (lit ''{{ current_year }}''))],
        static_dir = None, build_dir = None\<rparr>)))) [lit ''index.html''] = Some (lit ''2025'')"
proof -
  let ?fs = "\<lparr>pages_dir = Some [([lit ''index.html''], Inr (lit ''{{ current_year }}''))],
        static_dir = None, build_dir = None\<rparr>"
  have "built_file (snd (main ascii_tables year_footer 2025 ?fs)) [lit ''index.html''] = Some (lit ''2025'')"
    by code_simp
  then show ?thesis
    unfolding rebuild_in_same_year_is_idempotent [of ascii_tables year_footer 2025 ?fs] .
qed

lemma built_file_write_loop:
  "built_file (snd (write_loop env links year d fs)) p = Some c \<Longrightarrow>
   p \<in> set d \<or> built_file fs p = Some c"
proof (induction d arbitrary: fs)
  case Nil
  then show ?case by simp
next
  case (Cons q d)
  show ?case
  proof (cases "page_slug q")
    case (Inl e)
    with Cons.prems show ?thesis by simp
  next
    case (Inr slug)
    show ?thesis
    proof (cases "env (as_posix q) (page_context links year slug)")
      case (Inl x)
      with Inr Cons.prems show ?thesis by simp
    next
      case html: (Inr html)
      with Inr Cons.prems have
        "built_file (snd (write_loop env links year d (write_text fs q html))) p = Some c"
        by simp
      from Cons.IH [OF this] show ?thesis
        by (auto simp: built_file_def write_text_def split: if_splits option.splits)
    qed
  qed
qed

lemma built_file_render_pages:
  "built_file (snd (render_pages ucd env year fs)) p = Some c \<Longrightarrow>
   (\<exists>d. discover_pages fs = Inr d \<and> p \<in> set d) \<or> built_file fs p = Some c"
  using built_file_write_loop [of env _ year _ fs p c]
  by (auto simp: render_pages_def split: sum.splits if_splits)

lemma built_file_prepared:
  "built_file (copy_static_files (clean_build_directory fs)) p = Some c \<Longrightarrow>
   \<exists>files q. static_dir fs = Some files \<and> p = lit ''static'' # q \<and> files q = Some c"
  by (auto simp: built_file_def copy_static_files_def clean_build_directory_eq copytree_def
        split: option.splits list.splits if_splits)

text \<open>
  Claim C8. Whatever the build directory held before, \<open>clean_build_directory\<close> leaves it
  existing and empty, also when it did not exist, and cleaning twice is cleaning once. A
  build does not depend on what the build directory held: it ends as a build started
  without a build directory does. A stray file, one that is neither a discovered page nor
  the copy of a static file, is absent after the build.
\<close>

theorem build_discards_prior_output:
  "build_dir (clean_build_directory fs) = Some Map.empty
   \<and> clean_build_directory (clean_build_directory fs) = clean_build_directory fs
   \<and> main ucd env year (fs\<lparr>build_dir := prior\<rparr>) = main ucd env year (fs\<lparr>build_dir := None\<rparr>)
   \<and> ((\<forall>entries. pages_dir fs = Some entries \<longrightarrow> stray \<notin> set (rglob_html entries))
       \<and> (\<forall>files q. static_dir fs = Some files \<and> stray = lit ''static'' # q \<longrightarrow> files q = None)
      \<longrightarrow> built_file (snd (main ucd env year (fs\<lparr>build_dir := prior\<rparr>))) stray = None)"
proof -
  have a: "build_dir (clean_build_directory fs) = Some Map.empty"
    by (simp add: clean_build_directory_eq)
  have b: "clean_build_directory (clean_build_directory fs) = clean_build_directory fs"
    by (simp add: clean_build_directory_eq)
  have c: "main ucd env year (fs\<lparr>build_dir := prior\<rparr>) = main ucd env year (fs\<lparr>build_dir := None\<rparr>)"
    by (simp add: main_ignores_prior_output)
  have d: "(\<forall>entries. pages_dir fs = Some entries \<longrightarrow> stray \<notin> set (rglob_html entries))
       \<and> (\<forall>files q. static_dir fs = Some files \<and> stray = lit ''static'' # q \<longrightarrow> files q = None)
      \<longrightarrow> built_file (snd (main ucd env year (fs\<lparr>build_dir := prior\<rparr>))) stray = None"
  proof
    assume stray: "(\<forall>entries. pages_dir fs = Some entries \<longrightarrow> stray \<notin> set (rglob_html entries))
       \<and> (\<forall>files q. static_dir fs = Some files \<and> stray = lit ''static'' # q \<longrightarrow> files q = None)"
    show "built_file (snd (main ucd env year (fs\<lparr>build_dir := prior\<rparr>))) stray = None"
    proof (rule ccontr)
      assume "built_file (snd (main ucd env year (fs\<lparr>build_dir := prior\<rparr>))) stray \<noteq> None"
      then obtain c where "built_file (snd (main ucd env year fs)) stray = Some c"
        by (auto simp: main_ignores_prior_output)
      then have "built_file (snd (render_pages ucd env year (copy_static_files (clean_build_directory fs)))) stray = Some c"
        by (simp add: main_def)
      from built_file_render_pages [OF this]
      consider d where "discover_pages fs = Inr d" "stray \<in> set d"
        | "built_file (copy_static_files (clean_build_directory fs)) stray = Some c"
        by auto
      then show False
      proof cases
        case 1
        then obtain entries where "pages_dir fs = Some entries" "stray \<in> set (rglob_html entries)"
          by (auto simp: discover_pages_def split: option.splits)
        with stray show False by blast
      next
        case 2
        from built_file_prepared [OF this] stray show False by auto
      qed
    qed
  qed
  from a b c d show ?thesis by blast
qed

theorem build_discards_prior_output_witness:
  "built_file (snd (main ascii_tables year_footer 2025
      \<lparr>pages_dir = Some [([lit ''index.html''], Inr (lit ''x''))],
       static_dir = Some [ [lit ''styles.css''] \<mapsto> lit ''body {}''],
       build_dir = Some [ [lit ''old.html''] \<mapsto> lit ''stale'']\<rparr>)) [lit ''old.html''] = None"
proof -
  let ?entries = "[([lit ''index.html''], Inr (lit ''x''))] :: (path \<times> (string + str)) list"
  let ?fs = "\<lparr>pages_dir = Some ?entries,
       static_dir = Some [ [lit ''styles.css''] \<mapsto> lit ''body {}''],
       build_dir = None\<rparr>"
  let ?prior = "Some [ [lit ''old.html''] \<mapsto> lit ''stale'']"
  have 1: "\<forall>entries. pages_dir ?fs = Some entries \<longrightarrow> [lit ''old.html''] \<notin> set (rglob_html entries)"
    by (simp add: rglob_html_def is_html_def name_of_def lit_def)
  have 2: "\<forall>files q. static_dir ?fs = Some files \<and> [lit ''old.html''] = lit ''static'' # q \<longrightarrow> files q = None"
    by simp
  have 3: "?fs\<lparr>build_dir := ?prior\<rparr> = \<lparr>pages_dir = Some ?entries,
       static_dir = Some [ [lit ''styles.css''] \<mapsto> lit ''body {}''],
       build_dir = ?prior\<rparr>"
    by simp
  from build_discards_prior_output [where fs = ?fs and ucd = ascii_tables and env = year_footer and year = 2025 and prior = ?prior and stray = "[lit ''old.html'']"] 1 2
  have "built_file (snd (main ascii_tables year_footer 2025 (?fs\<lparr>build_dir := ?prior\<rparr>))) [lit ''old.html''] = None"
    by blast
  then show ?thesis unfolding 3 .
qed

section \<open>Properties of the watcher\<close>

lemma builds_run_build: "builds (fst (run_build p)) = 1"
  by (simp add: builds_def run_build_def Let_def)

lemma builds_Nil: "builds [] = 0"
  by (simp add: builds_def)


lemma poll_loop_nth:
  "i < length polls \<Longrightarrow>
   poll_loop prev polls ! i =
     (if snapshot (watched (polls ! i))
           \<noteq> (if i = 0 then prev else snapshot (watched (polls ! (i - 1))))
      then fst (run_build (polls ! i)) else [])"
proof (induction polls arbitrary: prev i)
  case Nil
  then show ?case by simp
next
  case (Cons p ps)
  show ?case
  proof (cases i)
    case 0
    then show ?thesis by (simp add: Let_def)
  next
    case (Suc j)
    with Cons.prems have j: "j < length ps" by simp
    have "poll_loop prev (p # ps) ! i = poll_loop (snapshot (watched p)) ps ! j"
      using Suc by (auto simp: Let_def)
    also have "\<dots> = (if snapshot (watched (ps ! j))
           \<noteq> (if j = 0 then snapshot (watched p) else snapshot (watched (ps ! (j - 1))))
      then fst (run_build (ps ! j)) else [])"
      using Cons.IH [OF j] .
    finally show ?thesis using Suc by (cases j) simp_all
  qed
qed

lemma poll_loop_quiet:
  "\<forall>p\<in>set quiet. snapshot (watched p) = prev \<Longrightarrow>
   poll_loop prev (quiet @ rest) = replicate (length quiet) [] @ poll_loop prev rest"
  by (induction quiet) (simp_all add: Let_def)


lemma snapshot_differs_iff:
  fixes current before :: "string \<rightharpoonup> real"
  shows "current \<noteq> before \<longleftrightarrow> dom current \<noteq> dom before \<or> (\<exists>k\<in>dom current. current k \<noteq> before k)"
proof
  assume "current \<noteq> before"
  then obtain k where k: "current k \<noteq> before k" by (auto simp: fun_eq_iff)
  show "dom current \<noteq> dom before \<or> (\<exists>k\<in>dom current. current k \<noteq> before k)"
  proof (cases "k \<in> dom current")
    case True
    with k show ?thesis by blast
  next
    case False
    then have "current k = None" by (simp add: domIff)
    with k have "before k \<noteq> None" by metis
    then have "k \<in> dom before" by (simp add: domIff)
    with False show ?thesis by blast
  qed
next
  assume "dom current \<noteq> dom before \<or> (\<exists>k\<in>dom current. current k \<noteq> before k)"
  then show "current \<noteq> before" by auto
qed

lemma watch_main_turn:
  "i < length polls \<Longrightarrow>
   watch_main start polls ! Suc i =
     (if snapshot (watched (polls ! i))
           \<noteq> snapshot (if i = 0 then start else watched (polls ! (i - 1)))
      then fst (run_build (polls ! i)) else [])"
  by (simp add: watch_main_def poll_loop_nth)

subsection \<open>The snapshot of a watched file\<close>

lemma path_join_valid:
  "joinable a \<Longrightarrow> valid_name b \<Longrightarrow> path_join a b = a @ ''/'' @ b"
  by (cases b) (auto simp: path_join_def joinable_def valid_name_def)

lemma joinable_path_join:
  assumes "joinable a" and "valid_name b"
  shows "joinable (path_join a b)"
proof -
  from assms(2) have "b \<noteq> []" "last b \<in> set b" "CHR ''/'' \<notin> set b"
    by (simp_all add: valid_name_def)
  then have "last b \<noteq> CHR ''/''" by metis
  with \<open>b \<noteq> []\<close> show ?thesis
    by (simp add: path_join_valid [OF assms] joinable_def)
qed

lemma in_concat_map: "x \<in> set (concat (map f xs)) \<longleftrightarrow> (\<exists>e\<in>set xs. x \<in> set (f e))"
  by auto

lemma walk_mem:
  "(k, r) \<in> set (walk dirpath entries) \<longleftrightarrow>
     (\<exists>name. (name, File r) \<in> set entries \<and> k = path_join dirpath name)
   \<or> (\<exists>d sub. (d, Dir sub) \<in> set entries \<and> d \<notin> set [''build'', ''__pycache__'']
         \<and> (k, r) \<in> set (walk (path_join dirpath d) sub))"
  (is "?lhs \<longleftrightarrow> ?files \<or> ?dirs")
proof -
  have "?lhs \<longleftrightarrow>
      (\<exists>e\<in>set entries. (k, r) \<in> set (case e of (name, n) \<Rightarrow> (case n of
                    File r \<Rightarrow> [(path_join dirpath name, r)]
                  | Dir _ \<Rightarrow> [])))
    \<or> (\<exists>e\<in>set entries. (k, r) \<in> set (case e of (d, n) \<Rightarrow> (case n of
                      Dir sub \<Rightarrow> if d \<in> set [''build'', ''__pycache__''] then []
                                 else walk (path_join dirpath d) sub
                    | File _ \<Rightarrow> [])))"
    by (subst walk.simps) (simp only: set_append Un_iff in_concat_map)
  also have "(\<exists>e\<in>set entries. (k, r) \<in> set (case e of (name, n) \<Rightarrow> (case n of
                    File r \<Rightarrow> [(path_join dirpath name, r)]
                  | Dir _ \<Rightarrow> []))) \<longleftrightarrow> ?files"
  proof
    assume "\<exists>e\<in>set entries. (k, r) \<in> set (case e of (name, n) \<Rightarrow> (case n of
                    File r \<Rightarrow> [(path_join dirpath name, r)]
                  | Dir _ \<Rightarrow> []))"
    then obtain name n where e: "(name, n) \<in> set entries"
      and "(k, r) \<in> set (case n of File r \<Rightarrow> [(path_join dirpath name, r)] | Dir _ \<Rightarrow> [])"
      by auto
    then have "n = File r \<and> k = path_join dirpath name"
      by (cases n) simp_all
    with e show ?files by blast
  next
    assume ?files
    then obtain name where "(name, File r) \<in> set entries" "k = path_join dirpath name" by blast
    then show "\<exists>e\<in>set entries. (k, r) \<in> set (case e of (name, n) \<Rightarrow> (case n of
                    File r \<Rightarrow> [(path_join dirpath name, r)]
                  | Dir _ \<Rightarrow> []))"
      by (intro bexI [of _ "(name, File r)"]) simp_all
  qed
  also have "(\<exists>e\<in>set entries. (k, r) \<in> set (case e of (d, n) \<Rightarrow> (case n of
                      Dir sub \<Rightarrow> if d \<in> set [''build'', ''__pycache__''] then []
                                 else walk (path_join dirpath d) sub
                    | File _ \<Rightarrow> []))) \<longleftrightarrow> ?dirs"
  proof
    assume "\<exists>e\<in>set entries. (k, r) \<in> set (case e of (d, n) \<Rightarrow> (case n of
                      Dir sub \<Rightarrow> if d \<in> set [''build'', ''__pycache__''] then []
                                 else walk (path_join dirpath d) sub
                    | File _ \<Rightarrow> []))"
    then obtain d n where e: "(d, n) \<in> set entries"
      and in_n: "(k, r) \<in> set (case n of
                      Dir sub \<Rightarrow> if d \<in> set [''build'', ''__pycache__''] then []
                                 else walk (path_join dirpath d) sub
                    | File _ \<Rightarrow> [])"
      by auto
    then obtain sub where "n = Dir sub" by (cases n) simp_all
    with in_n have "d \<notin> set [''build'', ''__pycache__''] \<and> (k, r) \<in> set (walk (path_join dirpath d) sub)"
      by (simp split: if_splits)
    with e \<open>n = Dir sub\<close> show ?dirs by blast
  next
    assume ?dirs
    then obtain d sub where "(d, Dir sub) \<in> set entries" "d \<notin> set [''build'', ''__pycache__'']"
        "(k, r) \<in> set (walk (path_join dirpath d) sub)" by blast
    then show "\<exists>e\<in>set entries. (k, r) \<in> set (case e of (d, n) \<Rightarrow> (case n of
                      Dir sub \<Rightarrow> if d \<in> set [''build'', ''__pycache__''] then []
                                 else walk (path_join dirpath d) sub
                    | File _ \<Rightarrow> []))"
      by (intro bexI [of _ "(d, Dir sub)"]) simp_all
  qed
  finally show ?thesis .
qed

lemma wf_entry:
  "wf_node (Dir entries) \<Longrightarrow> (name, n) \<in> set entries \<Longrightarrow> valid_name name \<and> wf_node n"
  by auto

lemma wf_same_name:
  "wf_node (Dir entries) \<Longrightarrow> (name, n) \<in> set entries \<Longrightarrow> (name, n') \<in> set entries \<Longrightarrow> n = n'"
  by (auto dest: eq_key_imp_eq_value)

lemma walk_keys_below:
  "joinable dirpath \<Longrightarrow> wf_node (Dir entries) \<Longrightarrow> (k, r) \<in> set (walk dirpath entries) \<Longrightarrow>
   \<exists>rest. k = dirpath @ ''/'' @ rest \<and> rest \<noteq> []"
proof (induction dirpath entries arbitrary: k r rule: walk.induct)
  case (1 dirpath entries)
  from "1.prems"(3) consider
    (a_file) name where "(name, File r) \<in> set entries" "k = path_join dirpath name"
    | (a_dir) d sub where "(d, Dir sub) \<in> set entries" "d \<notin> set [''build'', ''__pycache__'']"
        "(k, r) \<in> set (walk (path_join dirpath d) sub)"
    using walk_mem [of k r dirpath entries] by blast
  then show ?case
  proof cases
    case a_file
    with "1.prems"(2) have name: "valid_name name" using wf_entry by blast
    then have "name \<noteq> []" by (simp add: valid_name_def)
    with a_file(2) path_join_valid [OF "1.prems"(1) name] show ?thesis by blast
  next
    case a_dir
    with "1.prems"(2) have d: "valid_name d" "wf_node (Dir sub)" using wf_entry by blast+
    have "\<exists>rest. k = path_join dirpath d @ ''/'' @ rest \<and> rest \<noteq> []"
      by (rule "1.IH" [OF a_dir(1) refl refl a_dir(2) joinable_path_join [OF "1.prems"(1) d(1)] d(2) a_dir(3)])
    then obtain rest where "k = path_join dirpath d @ ''/'' @ rest" by blast
    then have "k = dirpath @ ''/'' @ (d @ ''/'' @ rest)"
      using path_join_valid [OF "1.prems"(1) d(1)] by simp
    then show ?thesis by blast
  qed
qed

lemma name_before_slash:
  assumes "CHR ''/'' \<notin> set d1" and "CHR ''/'' \<notin> set d2"
    and "d1 @ ''/'' @ r1 = d2 @ ''/'' @ r2"
  shows "d1 = d2 \<and> r1 = r2"
proof -
  have "takeWhile (\<lambda>c. c \<noteq> CHR ''/'') (d1 @ CHR ''/'' # r1) = d1"
    using assms(1) by (auto simp: takeWhile_tail)
  moreover have "takeWhile (\<lambda>c. c \<noteq> CHR ''/'') (d2 @ CHR ''/'' # r2) = d2"
    using assms(2) by (auto simp: takeWhile_tail)
  ultimately have "d1 = d2" using assms(3) by simp
  with assms(3) show ?thesis by simp
qed

lemma walk_functional:
  "joinable dirpath \<Longrightarrow> wf_node (Dir entries) \<Longrightarrow>
   (k, r1) \<in> set (walk dirpath entries) \<Longrightarrow> (k, r2) \<in> set (walk dirpath entries) \<Longrightarrow> r1 = r2"
proof (induction dirpath entries arbitrary: k r1 r2 rule: walk.induct)
  case (1 dirpath entries)
  note joinable = "1.prems"(1) and wf = "1.prems"(2)
  from "1.prems"(3) consider
    (file1) n1 where "(n1, File r1) \<in> set entries" "k = path_join dirpath n1"
    | (dir1) d1 sub1 where "(d1, Dir sub1) \<in> set entries" "d1 \<notin> set [''build'', ''__pycache__'']"
        "(k, r1) \<in> set (walk (path_join dirpath d1) sub1)"
    using walk_mem [of k r1 dirpath entries] by blast
  then show ?case
  proof cases
    case file1
    from wf file1(1) have v1: "valid_name n1" using wf_entry by blast
    have k1: "k = dirpath @ ''/'' @ n1"
      using file1(2) path_join_valid [OF joinable v1] by simp
    from "1.prems"(4) consider
      (file2) n2 where "(n2, File r2) \<in> set entries" "k = path_join dirpath n2"
      | (dir2) d2 sub2 where "(d2, Dir sub2) \<in> set entries" "d2 \<notin> set [''build'', ''__pycache__'']"
          "(k, r2) \<in> set (walk (path_join dirpath d2) sub2)"
      using walk_mem [of k r2 dirpath entries] by blast
    then show ?thesis
    proof cases
      case file2
      from wf file2(1) have v2: "valid_name n2" using wf_entry by blast
      have "k = dirpath @ ''/'' @ n2"
        using file2(2) path_join_valid [OF joinable v2] by simp
      with k1 have "n1 = n2" by simp
      with file1(1) file2(1) wf have "File r1 = File r2" using wf_same_name by blast
      then show ?thesis by simp
    next
      case dir2
      from wf dir2(1) have v2: "valid_name d2" "wf_node (Dir sub2)" using wf_entry by blast+
      from walk_keys_below [OF joinable_path_join [OF joinable v2(1)] v2(2) dir2(3)]
      obtain rest where "k = path_join dirpath d2 @ ''/'' @ rest" by blast
      then have "k = dirpath @ ''/'' @ d2 @ ''/'' @ rest"
        using path_join_valid [OF joinable v2(1)] by simp
      with k1 have "n1 = d2 @ ''/'' @ rest" by simp
      then have "CHR ''/'' \<in> set n1" by simp
      with v1 show ?thesis by (simp add: valid_name_def)
    qed
  next
    case dir1
    from wf dir1(1) have v1: "valid_name d1" "wf_node (Dir sub1)" using wf_entry by blast+
    note j1 = joinable_path_join [OF joinable v1(1)]
    from walk_keys_below [OF j1 v1(2) dir1(3)]
    obtain rest1 where "k = path_join dirpath d1 @ ''/'' @ rest1" by blast
    then have k1: "k = dirpath @ ''/'' @ d1 @ ''/'' @ rest1"
      using path_join_valid [OF joinable v1(1)] by simp
    from "1.prems"(4) consider
      (file2) n2 where "(n2, File r2) \<in> set entries" "k = path_join dirpath n2"
      | (dir2) d2 sub2 where "(d2, Dir sub2) \<in> set entries" "d2 \<notin> set [''build'', ''__pycache__'']"
          "(k, r2) \<in> set (walk (path_join dirpath d2) sub2)"
      using walk_mem [of k r2 dirpath entries] by blast
    then show ?thesis
    proof cases
      case file2
      from wf file2(1) have v2: "valid_name n2" using wf_entry by blast
      have "k = dirpath @ ''/'' @ n2"
        using file2(2) path_join_valid [OF joinable v2] by simp
      with k1 have "n2 = d1 @ ''/'' @ rest1" by simp
      then have "CHR ''/'' \<in> set n2" by simp
      with v2 show ?thesis by (simp add: valid_name_def)
    next
      case dir2
      from wf dir2(1) have v2: "valid_name d2" "wf_node (Dir sub2)" using wf_entry by blast+
      from walk_keys_below [OF joinable_path_join [OF joinable v2(1)] v2(2) dir2(3)]
      obtain rest2 where "k = path_join dirpath d2 @ ''/'' @ rest2" by blast
      then have "k = dirpath @ ''/'' @ d2 @ ''/'' @ rest2"
        using path_join_valid [OF joinable v2(1)] by simp
      with k1 have "d1 @ ''/'' @ rest1 = d2 @ ''/'' @ rest2" by simp
      with v1(1) v2(1) have "d1 = d2"
        using name_before_slash [of d1 d2 rest1 rest2] by (simp add: valid_name_def)
      with dir1(1) dir2(1) wf have "Dir sub1 = Dir sub2" using wf_same_name by blast
      then have same: "sub2 = sub1" by simp
      show ?thesis
        using "1.IH" [OF dir1(1) refl refl dir1(2) j1 v1(2) dir1(3)] dir2(3) \<open>d1 = d2\<close> same
        by simp
    qed
  qed
qed

lemma walk_watched:
  "joinable dirpath \<Longrightarrow> wf_node (Dir entries) \<Longrightarrow>
   watched_mtime names (Dir entries) = Some t \<Longrightarrow>
   (key_of dirpath names, Some t) \<in> set (walk dirpath entries)"
proof (induction names arbitrary: dirpath entries)
  case Nil
  then show ?case by simp
next
  case (Cons name names)
  from Cons.prems(3) obtain sub where sub: "map_of entries name = Some sub"
    and not_pruned: "\<not> (case sub of Dir _ \<Rightarrow> name \<in> set [''build'', ''__pycache__''] | File _ \<Rightarrow> False)"
    and below: "watched_mtime names sub = Some t"
    by (auto split: option.splits if_splits)
  from sub have entry: "(name, sub) \<in> set entries" by (rule map_of_SomeD)
  with Cons.prems(2) have v: "valid_name name" "wf_node sub" using wf_entry by blast+
  have key: "key_of dirpath (name # names) = key_of (path_join dirpath name) names"
    by (simp add: key_of_def)
  show ?case
  proof (cases sub)
    case (File r)
    with below have "names = []" "r = Some t"
      by (cases names; simp)+
    with entry File have "(name, File (Some t)) \<in> set entries" by simp
    then show ?thesis
      unfolding key \<open>names = []\<close> key_of_def using walk_mem [of _ "Some t" dirpath entries] by auto
  next
    case (Dir s)
    with not_pruned have "name \<notin> set [''build'', ''__pycache__'']" by simp
    moreover have "(key_of (path_join dirpath name) names, Some t) \<in> set (walk (path_join dirpath name) s)"
      using Cons.IH [OF joinable_path_join [OF Cons.prems(1) v(1)] ] v(2) below Dir by simp
    ultimately show ?thesis
      unfolding key using entry Dir walk_mem [of _ "Some t" dirpath entries] by blast
  qed
qed

lemma store_snoc:
  "store (found @ [(k', r')]) mtimes =
     (case r' of Some t' \<Rightarrow> (store found mtimes)(k' \<mapsto> t') | None \<Rightarrow> store found mtimes)"
  by (cases r') (simp_all add: store_def)

lemma store_functional:
  "(k, Some t) \<in> set found \<Longrightarrow> (\<And>r. (k, r) \<in> set found \<Longrightarrow> r = Some t) \<Longrightarrow>
   store found mtimes k = Some t"
proof (induction found rule: rev_induct)
  case Nil
  then show ?case by simp
next
  case (snoc x found)
  obtain k' r' where x: "x = (k', r')" by (cases x)
  show ?case
  proof (cases "k' = k")
    case True
    have "(k, r') \<in> set (found @ [x])" using x True by simp
    then have "r' = Some t" by (rule snoc.prems(2))
    with True show ?thesis by (simp add: x store_snoc)
  next
    case False
    with snoc.prems(1) x have mem: "(k, Some t) \<in> set found" by simp
    have "store found mtimes k = Some t"
    proof (rule snoc.IH [OF mem])
      fix r assume "(k, r) \<in> set found"
      then have "(k, r) \<in> set (found @ [x])" by simp
      then show "r = Some t" by (rule snoc.prems(2))
    qed
    with False show ?thesis by (cases r') (simp_all add: x store_snoc)
  qed
qed

lemma store_other:
  "(\<And>r. (k, r) \<notin> set found) \<Longrightarrow> store found mtimes k = mtimes k"
proof (induction found rule: rev_induct)
  case Nil
  show ?case by (simp add: store_def)
next
  case (snoc x found)
  obtain k' r' where x: "x = (k', r')" by (cases x)
  have "(k, r') \<notin> set (found @ [x])" by (rule snoc.prems)
  then have diff: "k' \<noteq> k" using x by auto
  have "store found mtimes k = mtimes k"
  proof (rule snoc.IH)
    fix r
    have "(k, r) \<notin> set (found @ [x])" by (rule snoc.prems)
    then show "(k, r) \<notin> set found" by simp
  qed
  with diff show ?case by (cases r') (simp_all add: x store_snoc)
qed

lemma snapshot_unfold:
  "snapshot cwd =
     (let m1 = (case cwd ''pages'' of Some (Dir entries) \<Rightarrow> store (walk ''pages'' entries) Map.empty
                | _ \<Rightarrow> Map.empty)
      in case cwd ''static'' of Some (Dir entries) \<Rightarrow> store (walk ''static'' entries) m1
         | _ \<Rightarrow> m1)"
  by (simp add: snapshot_def WATCH_DIRS_def Let_def)

lemma snapshot_watched:
  assumes wf: "\<And>b n. cwd b = Some n \<Longrightarrow> wf_node n"
    and base: "base \<in> set WATCH_DIRS"
    and dir: "cwd base = Some (Dir entries)"
    and mtime: "watched_mtime names (Dir entries) = Some t"
  shows "snapshot cwd (key_of base names) = Some t"
proof -
  let ?key = "key_of base names"
  have joinable: "joinable base"
    using base by (auto simp: WATCH_DIRS_def joinable_def)
  have wf_base: "wf_node (Dir entries)"
    using wf dir by blast
  have mem: "(?key, Some t) \<in> set (walk base entries)"
    using walk_watched [OF joinable wf_base mtime] .
  have stored: "store (walk base entries) m ?key = Some t" for m
  proof (rule store_functional [OF mem])
    fix r assume "(?key, r) \<in> set (walk base entries)"
    then show "r = Some t"
      using walk_functional [OF joinable wf_base _ mem] by blast
  qed
  from base consider "base = ''pages''" | "base = ''static''"
    by (auto simp: WATCH_DIRS_def)
  then show ?thesis
  proof cases
    case 2
    with dir stored show ?thesis
      by (simp add: snapshot_unfold Let_def)
  next
    case 1
    define m1 where "m1 = store (walk ''pages'' entries) Map.empty"
    have m1: "m1 ?key = Some t" using stored 1 by (simp add: m1_def)
    obtain rest where key: "?key = ''pages'' @ ''/'' @ rest"
      using walk_keys_below [OF joinable wf_base mem] 1 by blast
    have "snapshot cwd ?key = m1 ?key"
    proof (cases "cwd ''static''")
      case None
      with dir 1 show ?thesis by (simp add: snapshot_unfold m1_def)
    next
      case (Some n)
      show ?thesis
      proof (cases n)
        case (File r)
        with Some dir 1 show ?thesis by (simp add: snapshot_unfold m1_def)
      next
        case (Dir static_entries)
        have wf_static: "wf_node (Dir static_entries)"
          using wf Some Dir by blast
        have "store (walk ''static'' static_entries) m1 ?key = m1 ?key"
        proof (rule store_other)
          fix r
          show "(?key, r) \<notin> set (walk ''static'' static_entries)"
          proof
            assume "(?key, r) \<in> set (walk ''static'' static_entries)"
            moreover have "joinable ''static''" by (simp add: joinable_def)
            ultimately obtain rest' where "?key = ''static'' @ ''/'' @ rest'"
              using walk_keys_below [OF _ wf_static] by blast
            with key show False by simp
          qed
        qed
        with Some Dir dir 1 show ?thesis by (simp add: snapshot_unfold m1_def)
      qed
    qed
    with m1 show ?thesis by simp
  qed
qed

lemma map_of_touch:
  "map_of (map (\<lambda>(n, sub). (n, if n = name then f sub else sub)) entries) name
     = map_option f (map_of entries name)"
  by (induction entries) auto

lemma touch_names:
  "map fst (map (\<lambda>(n, sub). (n, if n = name then f sub else sub)) entries) = map fst entries"
  by (induction entries) auto

lemma wf_touch: "wf_node n \<Longrightarrow> wf_node (touch names t n)"
proof (induction names arbitrary: n)
  case Nil
  then show ?case by (cases n) simp_all
next
  case (Cons name names)
  show ?case
  proof (cases n)
    case (File r)
    then show ?thesis by simp
  next
    case (Dir entries)
    have "valid_name a \<and> wf_node b"
      if "(a, b) \<in> set (map (\<lambda>(n, sub). (n, if n = name then touch names t sub else sub)) entries)"
      for a b
    proof -
      from that obtain sub where sub: "(a, sub) \<in> set entries"
        and b: "b = (if a = name then touch names t sub else sub)"
        by auto
      from Cons.prems Dir sub have "valid_name a" "wf_node sub" using wf_entry by blast+
      with b Cons.IH show ?thesis by simp
    qed
    moreover have "distinct (map fst entries)"
      using Cons.prems Dir by simp
    ultimately show ?thesis
      unfolding Dir touch.simps wf_node.simps touch_names by blast
  qed
qed

lemma touch_mtime:
  "wf_node n \<Longrightarrow> watched_mtime names n = Some t \<Longrightarrow>
   watched_mtime names (touch names t' n) = Some t'"
proof (induction names arbitrary: n)
  case Nil
  then show ?case by (cases n) simp_all
next
  case (Cons name names)
  from Cons.prems(2) obtain entries where n: "n = Dir entries"
    by (cases n) simp_all
  from Cons.prems(2) n obtain sub where sub: "map_of entries name = Some sub"
    and not_pruned: "\<not> (case sub of Dir _ \<Rightarrow> name \<in> set [''build'', ''__pycache__''] | File _ \<Rightarrow> False)"
    and below: "watched_mtime names sub = Some t"
    by (auto split: option.splits if_splits)
  from sub have "(name, sub) \<in> set entries" by (rule map_of_SomeD)
  with Cons.prems(1) n have "wf_node sub" using wf_entry by blast
  from Cons.IH [OF this below] have IH: "watched_mtime names (touch names t' sub) = Some t'" .
  have still: "\<not> (case touch names t' sub of Dir _ \<Rightarrow> name \<in> set [''build'', ''__pycache__'']
                    | File _ \<Rightarrow> False)"
  proof (cases sub)
    case (File r)
    then show ?thesis by (cases names) simp_all
  next
    case (Dir s)
    with not_pruned show ?thesis by (simp split: node.splits)
  qed
  show ?case
    unfolding n touch.simps watched_mtime.simps map_of_touch sub
    using still IH by simp
qed

lemma touched_snapshot:
  assumes wf: "\<And>b n. cwd b = Some n \<Longrightarrow> wf_node n"
    and base: "base \<in> set WATCH_DIRS"
    and dir: "cwd base = Some (Dir entries)"
    and mtime: "watched_mtime names (Dir entries) = Some t"
  shows "snapshot cwd (key_of base names) = Some t
     \<and> snapshot (cwd(base \<mapsto> touch names t' (Dir entries))) (key_of base names) = Some t'"
proof -
  let ?cwd' = "cwd(base \<mapsto> touch names t' (Dir entries))"
  have before: "snapshot cwd (key_of base names) = Some t"
  proof (rule snapshot_watched [where cwd = cwd and entries = entries])
    show "\<And>b n. cwd b = Some n \<Longrightarrow> wf_node n" by (rule wf)
  qed (fact base dir mtime)+
  have wf_base: "wf_node (Dir entries)" using wf dir by blast
  obtain name rest where names: "names = name # rest"
    using mtime by (cases names) simp_all
  have dir': "?cwd' base = Some (Dir (map (\<lambda>(n, sub). (n, if n = name then touch rest t' sub else sub)) entries))"
    by (simp add: names)
  have mtime': "watched_mtime names (Dir (map (\<lambda>(n, sub). (n, if n = name then touch rest t' sub else sub)) entries)) = Some t'"
    using touch_mtime [OF wf_base mtime, of t'] by (simp add: names)
  have wf': "wf_node n" if "?cwd' b = Some n" for b n
    using that wf wf_touch [OF wf_base, of names t'] by (auto split: if_splits)
  have after: "snapshot ?cwd' (key_of base names) = Some t'"
  proof (rule snapshot_watched [where cwd = ?cwd'])
    show "\<And>b n. ?cwd' b = Some n \<Longrightarrow> wf_node n" by (rule wf')
  qed (fact base dir' mtime')+
  from before after show ?thesis by blast
qed

text \<open>
  Claim C2. In every turn of the loop one build is started when the snapshot taken in
  this turn differs from the one taken before it (by the previous turn, or before the loop
  for the first turn), and none when the two are equal. Two snapshots differ exactly when
  their sets of paths differ or some path has two different modification times. When the
  working directory of this turn is the previous one with the modification time of one
  watched file changed, at any depth below \<open>pages\<close> or \<open>static\<close>, the two snapshots hold
  the old and the new time at the path of that file, and exactly one build is started. A
  working directory left as it was starts none.
\<close>

theorem rebuild_iff_snapshot_differs:
  assumes "i < length polls"
    and "previous = (if i = 0 then start else watched (polls ! (i - 1)))"
    and "before = snapshot previous"
    and "current = snapshot (watched (polls ! i))"
  shows "(builds (watch_main start polls ! Suc i) = 1 \<longleftrightarrow> current \<noteq> before)
     \<and> (builds (watch_main start polls ! Suc i) = 0 \<longleftrightarrow> current = before)
     \<and> (current \<noteq> before \<longleftrightarrow>
          dom current \<noteq> dom before \<or> (\<exists>path\<in>dom current. current path \<noteq> before path))
     \<and> ((\<forall>b n. previous b = Some n \<longrightarrow> wf_node n)
          \<and> base \<in> set WATCH_DIRS \<and> previous base = Some (Dir entries)
          \<and> watched_mtime names (Dir entries) = Some t \<and> t' \<noteq> t
          \<and> watched (polls ! i) = previous(base \<mapsto> touch names t' (Dir entries))
          \<longrightarrow> before (key_of base names) = Some t
              \<and> current (key_of base names) = Some t'
              \<and> builds (watch_main start polls ! Suc i) = 1)
     \<and> (watched (polls ! i) = previous \<longrightarrow> builds (watch_main start polls ! Suc i) = 0)"
proof -
  have turn: "watch_main start polls ! Suc i =
      (if current \<noteq> before then fst (run_build (polls ! i)) else [])"
    using watch_main_turn [OF assms(1), of start] assms(2,3,4) by simp
  have one: "builds (watch_main start polls ! Suc i) = 1 \<longleftrightarrow> current \<noteq> before"
    by (simp add: turn builds_run_build builds_Nil)
  have zero: "builds (watch_main start polls ! Suc i) = 0 \<longleftrightarrow> current = before"
    by (simp add: turn builds_run_build builds_Nil)
  have structural: "current \<noteq> before \<longleftrightarrow>
      dom current \<noteq> dom before \<or> (\<exists>path\<in>dom current. current path \<noteq> before path)"
    by (rule snapshot_differs_iff)
  have touched: "(\<forall>b n. previous b = Some n \<longrightarrow> wf_node n)
          \<and> base \<in> set WATCH_DIRS \<and> previous base = Some (Dir entries)
          \<and> watched_mtime names (Dir entries) = Some t \<and> t' \<noteq> t
          \<and> watched (polls ! i) = previous(base \<mapsto> touch names t' (Dir entries))
          \<longrightarrow> before (key_of base names) = Some t
              \<and> current (key_of base names) = Some t'
              \<and> builds (watch_main start polls ! Suc i) = 1"
  proof
    assume a: "(\<forall>b n. previous b = Some n \<longrightarrow> wf_node n)
          \<and> base \<in> set WATCH_DIRS \<and> previous base = Some (Dir entries)
          \<and> watched_mtime names (Dir entries) = Some t \<and> t' \<noteq> t
          \<and> watched (polls ! i) = previous(base \<mapsto> touch names t' (Dir entries))"
    then have wf: "\<And>b n. previous b = Some n \<Longrightarrow> wf_node n"
      and base: "base \<in> set WATCH_DIRS" and dir: "previous base = Some (Dir entries)"
      and mtime: "watched_mtime names (Dir entries) = Some t" and changed: "t' \<noteq> t"
      and now: "watched (polls ! i) = previous(base \<mapsto> touch names t' (Dir entries))"
      by blast+
    have both: "snapshot previous (key_of base names) = Some t
        \<and> snapshot (previous(base \<mapsto> touch names t' (Dir entries))) (key_of base names) = Some t'"
    proof (rule touched_snapshot [where cwd = previous and entries = entries])
      show "\<And>b n. previous b = Some n \<Longrightarrow> wf_node n" by (rule wf)
    qed (fact base dir mtime)+
    then have stamps: "before (key_of base names) = Some t" "current (key_of base names) = Some t'"
      using assms(3,4) now by simp_all
    with changed have "current \<noteq> before" by auto
    with one stamps
    show "before (key_of base names) = Some t
              \<and> current (key_of base names) = Some t'
              \<and> builds (watch_main start polls ! Suc i) = 1"
      by blast
  qed
  have untouched: "watched (polls ! i) = previous
      \<longrightarrow> builds (watch_main start polls ! Suc i) = 0"
    using zero assms(3,4) by auto
  from one zero structural touched untouched show ?thesis by blast
qed

theorem rebuild_iff_snapshot_differs_witness:
  "builds (watch_main
     [''pages'' \<mapsto> Dir [(''index.html'', File (Some 100)),
                          (''blog'', Dir [(''post.html'', File (Some 100))])] ]
     [\<lparr>watched = [''pages'' \<mapsto> Dir [(''index.html'', File (Some 100)),
                                      (''blog'', Dir [(''post.html'', File (Some 250))])] ],
       uv_found = True, executable = ''python3'', returncode = 0\<rparr>] ! Suc 0) = 1"
proof -
  let ?entries = "[(''index.html'', File (Some 100)),
                   (''blog'', Dir [(''post.html'', File (Some 100))])]"
  let ?start = "[''pages'' \<mapsto> Dir ?entries]"
  let ?p0 = "\<lparr>watched = [''pages'' \<mapsto> Dir [(''index.html'', File (Some 100)),
                                      (''blog'', Dir [(''post.html'', File (Some 250))])] ],
       uv_found = True, executable = ''python3'', returncode = 0\<rparr>"
  have 1: "(0::nat) < length [?p0]" by simp
  have 2: "?start = (if (0::nat) = 0 then ?start else watched ([?p0] ! (0 - 1)))" by simp
  have wf: "\<forall>b n. ?start b = Some n \<longrightarrow> wf_node n"
    by (simp add: valid_name_def)
  have base: "''pages'' \<in> set WATCH_DIRS" by (simp add: WATCH_DIRS_def)
  have dir: "?start ''pages'' = Some (Dir ?entries)" by simp
  have mtime: "watched_mtime [''blog'', ''post.html''] (Dir ?entries) = Some 100" by simp
  have changed: "(250::real) \<noteq> 100" by simp
  have now: "watched ([?p0] ! 0)
      = ?start(''pages'' \<mapsto> touch [''blog'', ''post.html''] 250 (Dir ?entries))"
    by simp
  from rebuild_iff_snapshot_differs [OF 1 2 refl refl,
      where base = "''pages''" and entries = ?entries and names = "[''blog'', ''post.html'']"
        and t = 100 and t' = 250]
    wf base dir mtime changed now
  show ?thesis by blast
qed



text \<open>
  Claim C10. Before the loop the watcher prints its banner and starts no build; the
  snapshot it takes there is only what the first turn compares with. As long as the
  snapshots taken in the loop equal that first one, no build is started, whatever files
  the watched directories hold; the first build is started in the first turn whose
  snapshot differs from it.
\<close>

theorem no_build_at_startup:
  "builds (watch_main start polls ! 0) = 0
   \<and> map builds (watch_main start []) = [0]
   \<and> ((\<forall>p\<in>set quiet. snapshot (watched p) = snapshot start)
        \<longrightarrow> map builds (watch_main start quiet) = replicate (Suc (length quiet)) 0)
   \<and> ((\<forall>p\<in>set quiet. snapshot (watched p) = snapshot start)
        \<and> snapshot (watched changed) \<noteq> snapshot start
        \<longrightarrow> map builds (watch_main start (quiet @ changed # rest))
            = replicate (Suc (length quiet)) 0 @ 1 # map builds (poll_loop (snapshot (watched changed)) rest))"
proof -
  have banner: "builds (watch_main start polls ! 0) = 0"
    by (simp add: watch_main_def builds_def)
  have no_polls: "map builds (watch_main start []) = [0]"
    by (simp add: watch_main_def builds_def)
  have quiet: "(\<forall>p\<in>set quiet. snapshot (watched p) = snapshot start)
        \<longrightarrow> map builds (watch_main start quiet) = replicate (Suc (length quiet)) 0"
  proof
    assume "\<forall>p\<in>set quiet. snapshot (watched p) = snapshot start"
    from poll_loop_quiet [OF this, of "[]"]
    show "map builds (watch_main start quiet) = replicate (Suc (length quiet)) 0"
      by (simp add: watch_main_def builds_def)
  qed
  have first_build: "(\<forall>p\<in>set quiet. snapshot (watched p) = snapshot start)
        \<and> snapshot (watched changed) \<noteq> snapshot start
        \<longrightarrow> map builds (watch_main start (quiet @ changed # rest))
            = replicate (Suc (length quiet)) 0 @ 1 # map builds (poll_loop (snapshot (watched changed)) rest)"
  proof
    assume a: "(\<forall>p\<in>set quiet. snapshot (watched p) = snapshot start)
        \<and> snapshot (watched changed) \<noteq> snapshot start"
    then have "\<forall>p\<in>set quiet. snapshot (watched p) = snapshot start" by blast
    from poll_loop_quiet [OF this, of "changed # rest"] a
    show "map builds (watch_main start (quiet @ changed # rest))
            = replicate (Suc (length quiet)) 0 @ 1 # map builds (poll_loop (snapshot (watched changed)) rest)"
      by (simp add: watch_main_def builds_run_build builds_Nil Let_def) (simp add: builds_def)
  qed
  from banner no_polls quiet first_build show ?thesis by blast
qed

theorem no_build_at_startup_witness:
  "map builds (watch_main [''pages'' \<mapsto> Dir [(''about.html'', File (Some 100))] ]
     [\<lparr>watched = [''pages'' \<mapsto> Dir [(''about.html'', File (Some 100))] ],
       uv_found = True, executable = ''python3'', returncode = 0\<rparr>,
      \<lparr>watched = [''pages'' \<mapsto> Dir [(''about.html'', File (Some 100))] ],
       uv_found = True, executable = ''python3'', returncode = 0\<rparr>]) = [0, 0, 0]"
proof -
  let ?start = "[''pages'' \<mapsto> Dir [(''about.html'', File (Some 100))] ]"
  let ?p = "\<lparr>watched = ?start, uv_found = True, executable = ''python3'', returncode = 0\<rparr>"
  have "\<forall>p\<in>set [?p, ?p]. snapshot (watched p) = snapshot ?start" by simp
  with no_build_at_startup [of ?start _ "[?p, ?p]"]
  have "map builds (watch_main ?start [?p, ?p]) = replicate (Suc (length [?p, ?p])) 0"
    by blast
  then show ?thesis by (simp add: numeral_2_eq_2)
qed

end
